theory Spec2Isabelle
  imports Main "HOL-Library.Word" "HOL-Library.Multiset"
begin

unbundle bit_operations_syntax

section \<open>Data model\<close>

text \<open>
  Go's \<^verbatim>\<open>int\<close> is a 64-bit two's complement integer on the platforms the client is
  built for: addition, subtraction and multiplication wrap, comparisons are signed
  (\<open>sint\<close>). A \<^verbatim>\<open>[]byte\<close> and a Go \<^verbatim>\<open>string\<close> are lists of bytes.
\<close>

type_synonym go_int = "64 word"
type_synonym byte = "8 word"

text \<open>
  A panic of the Go runtime and \<^verbatim>\<open>log.Fatal\<close> both end the whole process; they are
  the \<open>Inl\<close> results of the model.
\<close>

datatype io_error = EOF | ErrUnexpectedEOF | Errno nat

datatype abort =
    IndexOutOfRange
  | SliceBoundsOutOfRange
  | MakeSliceLenOutOfRange
  | LogFatal io_error

subsection \<open>torrent.go: MetaInfo, Stats, Torrent\<close>

record FileInfo =
  Length :: go_int
  Md5sum :: "byte list"
  Path :: "string list"

record Info =
  PieceLength :: go_int
  Pieces :: "byte list"
  Private :: go_int
  Name :: string
  InfoLength :: go_int
  InfoMd5sum :: "byte list"
  Files :: "FileInfo list"

record MetaInfo =
  MInfo :: Info
  Announce :: string

record Stats =
  Left :: go_int
  Uploaded :: go_int
  Downloaded :: go_int

record Torrent =
  metaInfo :: MetaInfo
  infoHash :: "byte list"
  TStats :: Stats

text \<open>
  \<^verbatim>\<open>Torrent.Init\<close>: with files listed, \<^verbatim>\<open>Left\<close> is increased by each file's length in
  turn; otherwise it is set to the single file's length.
\<close>

definition Init :: "Torrent \<Rightarrow> Torrent" where
  "Init t =
     (if length (Files (MInfo (metaInfo t))) > 0
      then t\<lparr>TStats := (TStats t)\<lparr>Left :=
             foldl (\<lambda>left file. left + Length file) (Left (TStats t)) (Files (MInfo (metaInfo t)))\<rparr>\<rparr>
      else t\<lparr>TStats := (TStats t)\<lparr>Left := InfoLength (MInfo (metaInfo t))\<rparr>\<rparr>)"

text \<open>A session that has not counted anything yet.\<close>

definition fresh_torrent :: "MetaInfo \<Rightarrow> Torrent" where
  "fresh_torrent mi =
     \<lparr>metaInfo = mi, infoHash = [], TStats = \<lparr>Left = 0, Uploaded = 0, Downloaded = 0\<rparr>\<rparr>"

text \<open>
  The total length as \<^verbatim>\<open>Torrent.Run\<close> computes it: the single file's length when that
  is not zero, the sum over the files otherwise.
\<close>

definition Run_totalLength :: "MetaInfo \<Rightarrow> go_int" where
  "Run_totalLength mi =
     (if InfoLength (MInfo mi) \<noteq> 0 then InfoLength (MInfo mi)
      else foldl (\<lambda>total file. total + Length file) 0 (Files (MInfo mi)))"

text \<open>
  The piece hashes as \<^verbatim>\<open>Torrent.Run\<close> cuts them out of \<^verbatim>\<open>Pieces\<close>: one 20-byte entry
  for every offset \<open>0, 20, 40, \<dots>\<close> up to \<open>len(Pieces) - 20\<close>.
\<close>

definition pieceHashes :: "MetaInfo \<Rightarrow> byte list list" where
  "pieceHashes mi =
     map (\<lambda>k. take 20 (drop (20 * k) (Pieces (MInfo mi))))
         [0..<length (Pieces (MInfo mi)) div 20]"

text \<open>
  Modelled from the spec: the Controller, which updates \<^verbatim>\<open>Stats\<close> when a piece has been
  verified, is not among the given sources. Its \<^verbatim>\<open>OnPieceVerified\<close> is described as
  \<^verbatim>\<open>left -= pieceLength\<close>, clamped at zero for the final partial piece.
\<close>

definition OnPieceVerified :: "MetaInfo \<Rightarrow> Stats \<Rightarrow> Stats" where
  "OnPieceVerified mi st =
     st\<lparr>Left := (if sint (Left st - PieceLength (MInfo mi)) < 0 then 0
                  else Left st - PieceLength (MInfo mi))\<rparr>"

subsection \<open>Peer manager: PeerTuple, Peer, PeerInfo\<close>

record PeerTuple =
  IP :: "byte list"
  Port :: "16 word"

record Peer =
  peer :: PeerTuple
  conn :: "nat option"

text \<open>The peer manager's map from peer id to peer; channels and the tomb are left out.\<close>

record PeerManager =
  peers :: "string \<rightharpoonup> Peer"

text \<open>The channels of \<^verbatim>\<open>PeerInfo\<close> carry no data of their own and are left out.\<close>

record PeerInfo =
  peerId :: string
  isChoked :: bool
  availablePieces :: "bool list"
  activeRequests :: "int set"
  qtyPiecesNeeded :: go_int

type_synonym SortedPeers = "PeerInfo list"

text \<open>
  \<^verbatim>\<open>NewPeerInfo\<close>: \<^verbatim>\<open>new(PeerInfo)\<close> gives every field its zero value, then the bitfield
  and the request set are made. \<^verbatim>\<open>make\<close> panics on a negative length.
\<close>

definition NewPeerInfo :: "go_int \<Rightarrow> abort + PeerInfo" where
  "NewPeerInfo quantityOfPieces =
     (if sint quantityOfPieces < 0 then Inl MakeSliceLenOutOfRange
      else Inr \<lparr>peerId = [], isChoked = False,
                availablePieces = replicate (nat (sint quantityOfPieces)) False,
                activeRequests = {}, qtyPiecesNeeded = 0\<rparr>)"

text \<open>\<^verbatim>\<open>NewPeer\<close> returns \<^verbatim>\<open>new(Peer)\<close> as it is: the tuple is printed, not stored.\<close>

definition NewPeer :: "PeerTuple \<Rightarrow> Peer" where
  "NewPeer peerTuple = \<lparr>peer = \<lparr>IP = [], Port = 0\<rparr>, conn = None\<rparr>"

text \<open>Decimal digits of a number, as \<^verbatim>\<open>%d\<close> prints an unsigned value.\<close>

fun decimal :: "nat \<Rightarrow> string" where
  "decimal n =
     (if n < 10 then [char_of (48 + n)]
      else decimal (n div 10) @ [char_of (48 + n mod 10)])"

declare decimal.simps [simp del]

text \<open>
  The peer id \<^verbatim>\<open>fmt.Sprintf("%s:%d", peer.IP.String(), peer.Port)\<close>. \<^verbatim>\<open>net.IP.String\<close>
  belongs to Go's library and is the parameter \<open>ip_string\<close>.
\<close>

definition peerID :: "(byte list \<Rightarrow> string) \<Rightarrow> PeerTuple \<Rightarrow> string" where
  "peerID ip_string p = ip_string (IP p) @ '':'' @ decimal (unat (Port p))"

text \<open>
  One turn of \<^verbatim>\<open>PeerManager.Run\<close> that receives a tuple from \<^verbatim>\<open>peersCh\<close>: a peer id
  already in the map is only logged, a new one is entered with \<^verbatim>\<open>NewPeer\<close>.
\<close>

definition Run_peersCh :: "(byte list \<Rightarrow> string) \<Rightarrow> PeerManager \<Rightarrow> PeerTuple \<Rightarrow> PeerManager" where
  "Run_peersCh ip_string pm p =
     (case peers pm (peerID ip_string p) of
        Some existing \<Rightarrow> pm
      | None \<Rightarrow> pm\<lparr>peers := (peers pm)(peerID ip_string p \<mapsto> NewPeer p)\<rparr>)"

subsection \<open>Peer manager: SortedPeers\<close>

text \<open>
  The methods that make \<^verbatim>\<open>SortedPeers\<close> a \<^verbatim>\<open>sort.Interface\<close>. Indexing out of range
  panics. \<^verbatim>\<open>Less\<close> compares the need-counts with \<open>\<le>\<close>.
\<close>

definition Less :: "SortedPeers \<Rightarrow> nat \<Rightarrow> nat \<Rightarrow> abort + bool" where
  "Less sp i j =
     (if i < length sp \<and> j < length sp
      then Inr (sint (qtyPiecesNeeded (sp ! i)) \<le> sint (qtyPiecesNeeded (sp ! j)))
      else Inl IndexOutOfRange)"

definition Swap :: "SortedPeers \<Rightarrow> nat \<Rightarrow> nat \<Rightarrow> abort + SortedPeers" where
  "Swap sp i j =
     (if i < length sp \<and> j < length sp
      then Inr ((sp[i := sp ! j])[j := sp ! i])
      else Inl IndexOutOfRange)"

definition Len :: "SortedPeers \<Rightarrow> nat" where
  "Len sp = length sp"

text \<open>
  \<^verbatim>\<open>sort.Sort\<close> belongs to Go's library. It reads the slice through \<^verbatim>\<open>Len\<close> and \<^verbatim>\<open>Less\<close>
  and changes it through \<^verbatim>\<open>Swap\<close> only, so whatever it does to the slice is a sequence
  of \<^verbatim>\<open>Swap\<close> calls:
\<close>

fun Swaps :: "(nat \<times> nat) list \<Rightarrow> SortedPeers \<Rightarrow> abort + SortedPeers" where
  "Swaps [] sp = Inr sp"
| "Swaps ((i, j) # calls) sp =
     (case Swap sp i j of Inl a \<Rightarrow> Inl a | Inr sp' \<Rightarrow> Swaps calls sp')"

text \<open>
  The insertion sort of the library, which is all that it runs on a short slice (up to
  six elements in every release):
  \<^verbatim>\<open>for i := a + 1; i < b; i++ { for j := i; j > a && data.Less(j, j-1); j-- { data.Swap(j, j-1) } }\<close>
  with \<open>a = 0\<close> and \<open>b = Len()\<close>.
\<close>

fun insertionSort_inner :: "SortedPeers \<Rightarrow> nat \<Rightarrow> abort + SortedPeers" where
  "insertionSort_inner sp 0 = Inr sp"
| "insertionSort_inner sp (Suc j) =
     (case Less sp (Suc j) j of
        Inl a \<Rightarrow> Inl a
      | Inr lt \<Rightarrow>
          if lt
          then (case Swap sp (Suc j) j of
                  Inl a \<Rightarrow> Inl a
                | Inr sp' \<Rightarrow> insertionSort_inner sp' j)
          else Inr sp)"

fun insertionSort_outer :: "nat list \<Rightarrow> SortedPeers \<Rightarrow> abort + SortedPeers" where
  "insertionSort_outer [] sp = Inr sp"
| "insertionSort_outer (i # is) sp =
     (case insertionSort_inner sp i of
        Inl a \<Rightarrow> Inl a
      | Inr sp' \<Rightarrow> insertionSort_outer is sp')"

definition insertionSort :: "SortedPeers \<Rightarrow> abort + SortedPeers" where
  "insertionSort sp = insertionSort_outer [1..<Len sp] sp"

text \<open>
  \<^verbatim>\<open>sortedPeersByQtyPiecesNeeded\<close>: the values of the map are appended to a slice in the
  order in which \<^verbatim>\<open>range\<close> yields them, and the slice is sorted. Go leaves the order of
  \<^verbatim>\<open>range\<close> over a map open, so the map is given as the list of its entries in that
  order; the library's sorting procedure is the parameter \<open>sort_Sort\<close>.
\<close>

definition sortedPeersByQtyPiecesNeeded ::
  "(SortedPeers \<Rightarrow> abort + SortedPeers) \<Rightarrow> (string \<times> PeerInfo) list \<Rightarrow> abort + SortedPeers" where
  "sortedPeersByQtyPiecesNeeded sort_Sort entries = sort_Sort (map snd entries)"

definition need_le :: "PeerInfo \<Rightarrow> PeerInfo \<Rightarrow> bool" where
  "need_le p q = (sint (qtyPiecesNeeded p) \<le> sint (qtyPiecesNeeded q))"

subsection \<open>SHA-1\<close>

text \<open>
  \<^verbatim>\<open>crypto/sha1\<close> belongs to Go's library; this is the function it computes (FIPS 180):
  the message is padded to whole 64-byte blocks, each block is expanded to 80 words
  and run through 80 rounds. A 32-bit word is a natural number below \<open>2^32\<close>, with
  the reduction written out.
\<close>

type_synonym u32 = nat

definition add32 :: "u32 \<Rightarrow> u32 \<Rightarrow> u32" where
  "add32 a b = (a + b) mod 4294967296"

definition rotl :: "nat \<Rightarrow> u32 \<Rightarrow> u32" where
  "rotl n w = (w * 2 ^ n) mod 4294967296 + w div 2 ^ (32 - n)"

fun be32s :: "byte list \<Rightarrow> u32 list" where
  "be32s (a # b # c # d # bs) =
     (16777216 * unat a + 65536 * unat b + 256 * unat c + unat d) # be32s bs"
| "be32s bs = []"

definition be64 :: "nat \<Rightarrow> byte list" where
  "be64 v = map (\<lambda>s. of_nat (v div 2 ^ s)) [56, 48, 40, 32, 24, 16, 8, 0]"

definition sha1_pad :: "byte list \<Rightarrow> byte list" where
  "sha1_pad msg =
     msg @ [0x80] @ replicate ((119 - length msg mod 64) mod 64) 0 @ be64 (8 * length msg)"

fun chunks :: "nat \<Rightarrow> byte list \<Rightarrow> byte list list" where
  "chunks 0 bs = []"
| "chunks (Suc k) bs = take 64 bs # chunks k (drop 64 bs)"

text \<open>
  The message schedule: \<open>win\<close> holds the last 16 words, oldest first, and each new
  word is \<open>rotl 1 (w(t-3) XOR w(t-8) XOR w(t-14) XOR w(t-16))\<close>.
\<close>

fun sched :: "nat \<Rightarrow> u32 list \<Rightarrow> u32 list" where
  "sched 0 win = []"
| "sched (Suc k) win =
     rotl 1 (win ! 13 XOR win ! 8 XOR win ! 2 XOR win ! 0) #
     sched k (tl win @ [rotl 1 (win ! 13 XOR win ! 8 XOR win ! 2 XOR win ! 0)])"

type_synonym sha1_state = "u32 \<times> u32 \<times> u32 \<times> u32 \<times> u32"

definition sha1_f :: "nat \<Rightarrow> u32 \<Rightarrow> u32 \<Rightarrow> u32 \<Rightarrow> u32" where
  "sha1_f t b c d =
     (if t < 20 then (b AND c) OR ((4294967295 - b) AND d)
      else if t < 40 then b XOR c XOR d
      else if t < 60 then (b AND c) OR (b AND d) OR (c AND d)
      else b XOR c XOR d)"

definition sha1_k :: "nat \<Rightarrow> u32" where
  "sha1_k t = (if t < 20 then 0x5A827999 else if t < 40 then 0x6ED9EBA1
               else if t < 60 then 0x8F1BBCDC else 0xCA62C1D6)"

fun sha1_rounds :: "nat \<Rightarrow> u32 list \<Rightarrow> sha1_state \<Rightarrow> sha1_state" where
  "sha1_rounds t [] s = s"
| "sha1_rounds t (wt # ws) (a, b, c, d, e) =
     sha1_rounds (t + 1) ws
       ((rotl 5 a + sha1_f t b c d + e + sha1_k t + wt) mod 4294967296, a, rotl 30 b, c, d)"

fun sha1_block :: "sha1_state \<Rightarrow> byte list \<Rightarrow> sha1_state" where
  "sha1_block (h0, h1, h2, h3, h4) blk =
     (case sha1_rounds 0 (be32s blk @ sched 64 (be32s blk)) (h0, h1, h2, h3, h4) of
        (a, b, c, d, e) \<Rightarrow> (add32 h0 a, add32 h1 b, add32 h2 c, add32 h3 d, add32 h4 e))"

definition word_bytes :: "u32 \<Rightarrow> byte list" where
  "word_bytes w = [of_nat (w div 16777216), of_nat (w div 65536), of_nat (w div 256), of_nat w]"

definition sha1 :: "byte list \<Rightarrow> byte list" where
  "sha1 msg =
     (case foldl sha1_block (0x67452301, 0xEFCDAB89, 0x98BADCFE, 0x10325476, 0xC3D2E1F0)
             (chunks (length (sha1_pad msg) div 64) (sha1_pad msg)) of
        (h0, h1, h2, h3, h4) \<Rightarrow> concat (map word_bytes [h0, h1, h2, h3, h4]))"

subsection \<open>Disk I/O: files\<close>

text \<open>
  An open file: its bytes, the position of sequential reads, and the error number that
  the operating system gives to the next system call on it, if any.
\<close>

record os_File =
  contents :: "byte list"
  pos :: nat
  fault :: "nat option"

text \<open>
  \<^verbatim>\<open>File.ReadAt(b, off)\<close> with \<open>len(b) = len\<close>: the bytes read and the error. It reads
  until \<open>b\<close> is full; at the end of the file it returns what it has with \<open>EOF\<close>. With an
  empty \<open>b\<close> it makes no system call.
\<close>

definition ReadAt :: "os_File \<Rightarrow> nat \<Rightarrow> nat \<Rightarrow> byte list \<times> io_error option" where
  "ReadAt f len off =
     (if len = 0 then ([], None)
      else case fault f of
             Some e \<Rightarrow> ([], Some (Errno e))
           | None \<Rightarrow>
               (take len (drop off (contents f)),
                if length (take len (drop off (contents f))) < len then Some EOF else None))"

text \<open>
  \<^verbatim>\<open>File.WriteAt(b, off)\<close>: a negative offset is refused before anything else
  (\<open>EINVAL\<close>, 22); an empty \<open>b\<close> then makes no system call; a write beyond the end
  fills the gap with zeros.
\<close>

definition WriteAt :: "os_File \<Rightarrow> byte list \<Rightarrow> int \<Rightarrow> io_error + os_File" where
  "WriteAt f b off =
     (if off < 0 then Inl (Errno 22)
      else if b = [] then Inr f
      else case fault f of
             Some e \<Rightarrow> Inl (Errno e)
           | None \<Rightarrow>
               Inr (f\<lparr>contents :=
                      take (nat off) (contents f @ replicate (nat off - length (contents f)) 0)
                      @ b @ drop (nat off + length b) (contents f)\<rparr>))"

text \<open>
  \<^verbatim>\<open>io.ReadFull(file, buf)\<close> with \<open>len(buf) = len\<close>: reads from the file's position;
  \<open>EOF\<close> when nothing is left, \<open>ErrUnexpectedEOF\<close> when fewer than \<open>len\<close> bytes are.
\<close>

definition ReadFull :: "os_File \<Rightarrow> nat \<Rightarrow> io_error + (byte list \<times> os_File)" where
  "ReadFull f len =
     (if len = 0 then Inr ([], f)
      else case fault f of
             Some e \<Rightarrow> Inl (Errno e)
           | None \<Rightarrow>
               (if len \<le> length (drop (pos f) (contents f))
                then Inr (take len (drop (pos f) (contents f)), f\<lparr>pos := pos f + len\<rparr>)
                else if drop (pos f) (contents f) = [] then Inl EOF
                else Inl ErrUnexpectedEOF))"

subsection \<open>Disk I/O: DiskIO\<close>

record DiskIO =
  dmetaInfo :: MetaInfo
  files :: "os_File list"

text \<open>
  A piece as it is handed to the disk: \<open>data\<close> is the slice \<^verbatim>\<open>piece.data\<close>, and \<open>spare\<close> is
  what its backing array holds after the slice's length, up to its capacity.
\<close>

record Piece =
  index :: go_int
  data :: "byte list"
  spare :: "byte list"
  peerName :: string

text \<open>
  \<^verbatim>\<open>BlockInfo\<close> and \<^verbatim>\<open>BlockResponse\<close> are declared outside the given sources; the fields
  that \<^verbatim>\<open>requestBlock\<close> and \<^verbatim>\<open>readBlock\<close> use are the 32-bit unsigned piece index and
  length of the wire format.
\<close>

record BlockInfo =
  bi_pieceIndex :: "32 word"
  bi_begin :: "32 word"
  bi_length :: "32 word"

record BlockResponse =
  info :: BlockInfo
  rdata :: "byte list"

text \<open>
  \<^verbatim>\<open>checkHash\<close> compares the SHA-1 of \<open>buf\<close> with \<^verbatim>\<open>Pieces[pieceIndex:pieceIndex+20]\<close>;
  the slice expression panics unless \<open>0 \<le> pieceIndex\<close> and \<open>pieceIndex + 20 \<le> len(Pieces)\<close>.
  (A Go string is shorter than \<open>2^63\<close> bytes, so a sum that wraps is out of range too.)
\<close>

definition checkHash :: "MetaInfo \<Rightarrow> byte list \<Rightarrow> int \<Rightarrow> abort + bool" where
  "checkHash mi buf pieceIndex =
     (if 0 \<le> pieceIndex \<and> nat pieceIndex + 20 \<le> length (Pieces (MInfo mi))
      then Inr (sha1 buf = take 20 (drop (nat pieceIndex) (Pieces (MInfo mi))))
      else Inl SliceBoundsOutOfRange)"

subsection \<open>Disk I/O: writePiece\<close>

text \<open>
  The loop of \<^verbatim>\<open>writePiece\<close>, entered at file index \<open>i\<close> with the offset and the piece
  data that are left. The loop runs while \<open>i \<le> len(Files)\<close>, and indexing \<^verbatim>\<open>Files\<close> out of
  range panics. In the call \<^verbatim>\<open>diskio.files[i].WriteAt(piece.data[:max], int64(offset))\<close>
  the slice expression comes first: it panics when \<open>max\<close> is negative or more than the
  capacity, and up to the capacity it takes in the bytes after the data; then
  \<^verbatim>\<open>diskio.files\<close> is indexed. A failed write goes to \<^verbatim>\<open>log.Fatal\<close>. After the write
  \<^verbatim>\<open>piece.data[max:]\<close> panics when \<open>max\<close> is more than the length of the data.
\<close>

function writePiece_loop ::
  "MetaInfo \<Rightarrow> nat \<Rightarrow> go_int \<Rightarrow> byte list \<Rightarrow> byte list \<Rightarrow> os_File list
     \<Rightarrow> abort + os_File list" where
  "writePiece_loop mi i offset pdata pspare fs =
     (if i \<le> length (Files (MInfo mi)) then
        (if length (Files (MInfo mi)) \<le> i then Inl IndexOutOfRange
         else if sint (Length (Files (MInfo mi) ! i)) < sint offset
         then writePiece_loop mi (i + 1) (offset - Length (Files (MInfo mi) ! i)) pdata pspare fs
         else
           (let max = Length (Files (MInfo mi) ! i) - offset in
            if sint max < 0 \<or> int (length pdata + length pspare) < sint max
            then Inl SliceBoundsOutOfRange
            else if length fs \<le> i then Inl IndexOutOfRange
            else
              (case WriteAt (fs ! i) (take (nat (sint max)) (pdata @ pspare)) (sint offset) of
                 Inl e \<Rightarrow> Inl (LogFatal e)
               | Inr f \<Rightarrow>
                   if int (length pdata) < sint max then Inl SliceBoundsOutOfRange
                   else if drop (nat (sint max)) pdata = [] then Inr (fs[i := f])
                   else writePiece_loop mi (i + 1) 0 (drop (nat (sint max)) pdata) pspare
                          (fs[i := f]))))
      else Inr fs)"
  by pat_completeness auto
termination
  by (relation "measure (\<lambda>(mi, i, offset, pdata, pspare, fs).
                  length (Files (MInfo mi)) + 1 - i)") auto

declare writePiece_loop.simps [simp del]

definition writePiece :: "DiskIO \<Rightarrow> Piece \<Rightarrow> abort + DiskIO" where
  "writePiece d piece =
     (case writePiece_loop (dmetaInfo d) 0
             (index piece * PieceLength (MInfo (dmetaInfo d))) (data piece) (spare piece)
             (files d) of
        Inl a \<Rightarrow> Inl a
      | Inr fs \<Rightarrow> Inr (d\<lparr>files := fs\<rparr>))"

subsection \<open>Disk I/O: readBlock and requestBlock\<close>

definition readBlock :: "os_File \<Rightarrow> BlockInfo \<Rightarrow> abort + (byte list \<times> os_File)" where
  "readBlock file block =
     (case ReadFull file (unat (bi_length block)) of
        Inl e \<Rightarrow> Inl (LogFatal e)
      | Inr r \<Rightarrow> Inr r)"

text \<open>
  The multi-file loop of \<^verbatim>\<open>requestBlock\<close>: it has no \<^verbatim>\<open>break\<close>, so after a read it goes
  on to the next index with the offset unchanged; \<open>rd\<close> is \<^verbatim>\<open>response.data\<close>.
\<close>

function requestBlock_loop ::
  "MetaInfo \<Rightarrow> BlockInfo \<Rightarrow> nat \<Rightarrow> go_int \<Rightarrow> byte list \<Rightarrow> os_File list
     \<Rightarrow> abort + (byte list \<times> os_File list)" where
  "requestBlock_loop mi block i offset rd fs =
     (if i \<le> length (Files (MInfo mi)) then
        (if length (Files (MInfo mi)) \<le> i then Inl IndexOutOfRange
         else if sint (Length (Files (MInfo mi) ! i)) < sint offset
         then requestBlock_loop mi block (i + 1) (offset - Length (Files (MInfo mi) ! i)) rd fs
         else if length fs \<le> i then Inl IndexOutOfRange
         else
           (case readBlock (fs ! i) block of
              Inl a \<Rightarrow> Inl a
            | Inr (bytes, f) \<Rightarrow> requestBlock_loop mi block (i + 1) offset bytes (fs[i := f])))
      else Inr (rd, fs))"
  by pat_completeness auto
termination
  by (relation "measure (\<lambda>(mi, block, i, offset, rd, fs). length (Files (MInfo mi)) + 1 - i)")
    auto

declare requestBlock_loop.simps [simp del]

definition requestBlock :: "DiskIO \<Rightarrow> BlockInfo \<Rightarrow> abort + (BlockResponse \<times> DiskIO)" where
  "requestBlock d block =
     (if length (Files (MInfo (dmetaInfo d))) = 0 then
        (if files d = [] then Inl IndexOutOfRange
         else
           (case readBlock (files d ! 0) block of
              Inl a \<Rightarrow> Inl a
            | Inr (bytes, f) \<Rightarrow>
                Inr (\<lparr>info = block, rdata = bytes\<rparr>, d\<lparr>files := (files d)[0 := f]\<rparr>)))
      else
        (case requestBlock_loop (dmetaInfo d) block 0
                (ucast (bi_pieceIndex block) * PieceLength (MInfo (dmetaInfo d))) [] (files d) of
           Inl a \<Rightarrow> Inl a
         | Inr (bytes, fs) \<Rightarrow> Inr (\<lparr>info = block, rdata = bytes\<rparr>, d\<lparr>files := fs\<rparr>)))"

subsection \<open>Disk I/O: Verify\<close>

text \<open>
  The inner loop of the multi-file branch of \<^verbatim>\<open>Verify\<close> on one file: \<^verbatim>\<open>ReadAt\<close> fills
  \<^verbatim>\<open>buf[m:]\<close> from \<open>offset\<close>; at \<open>EOF\<close> the partial counter \<open>m\<close> grows by the bytes read and
  the loop ends; any other error goes to \<^verbatim>\<open>log.Fatal\<close>; a full buffer is hashed, the
  result appended, \<open>m\<close> reset and \<open>pieceIndex\<close> moved on by 20. The state that the loop
  leaves is the buffer, \<open>m\<close>, \<open>pieceIndex\<close> and the results.
\<close>

function Verify_read ::
  "MetaInfo \<Rightarrow> os_File \<Rightarrow> nat \<Rightarrow> byte list \<Rightarrow> nat \<Rightarrow> nat \<Rightarrow> bool list
     \<Rightarrow> abort + (byte list \<times> nat \<times> nat \<times> bool list)" where
  "Verify_read mi f offset buf m pidx finishedPieces =
     (if length buf < m then Inl SliceBoundsOutOfRange
      else
        (case ReadAt f (length buf - m) offset of
           (bs, Some e) \<Rightarrow>
             if e = EOF
             then Inr (take m buf @ bs @ drop (m + length bs) buf, m + length bs, pidx,
                       finishedPieces)
             else Inl (LogFatal e)
         | (bs, None) \<Rightarrow>
             (case checkHash mi (take m buf @ bs @ drop (m + length bs) buf) (int pidx) of
                Inl a \<Rightarrow> Inl a
              | Inr ok \<Rightarrow>
                  Verify_read mi f (offset + length bs)
                    (take m buf @ bs @ drop (m + length bs) buf) 0 (pidx + 20)
                    (finishedPieces @ [ok]))))"
  by pat_completeness auto
termination
  by (relation "measure (\<lambda>(mi, f, offset, buf, m, pidx, fin).
                  length (Pieces (MInfo mi)) + 20 - pidx)")
    (auto simp: checkHash_def split: if_splits)

declare Verify_read.simps [simp del]

text \<open>The files in turn, at the indices of \<^verbatim>\<open>Files\<close>; each file is read from offset 0.\<close>

fun Verify_files ::
  "MetaInfo \<Rightarrow> os_File list \<Rightarrow> nat list \<Rightarrow> byte list \<times> nat \<times> nat \<times> bool list
     \<Rightarrow> abort + (byte list \<times> nat \<times> nat \<times> bool list)" where
  "Verify_files mi fs [] st = Inr st"
| "Verify_files mi fs (i # is) (buf, m, pidx, finishedPieces) =
     (if length fs \<le> i then Inl IndexOutOfRange
      else
        (case Verify_read mi (fs ! i) 0 buf m pidx finishedPieces of
           Inl a \<Rightarrow> Inl a
         | Inr st \<Rightarrow> Verify_files mi fs is st))"

text \<open>
  The loop of the single-file branch: the whole buffer is read each time, and the loop
  leaves the buffer, the count \<open>n\<close> of the last read, \<open>pieceIndex\<close> and the results.
\<close>

function Verify_single ::
  "MetaInfo \<Rightarrow> os_File \<Rightarrow> nat \<Rightarrow> byte list \<Rightarrow> nat \<Rightarrow> bool list
     \<Rightarrow> abort + (byte list \<times> nat \<times> nat \<times> bool list)" where
  "Verify_single mi f offset buf pidx finishedPieces =
     (case ReadAt f (length buf) offset of
        (bs, Some e) \<Rightarrow>
          if e = EOF
          then Inr (bs @ drop (length bs) buf, length bs, pidx, finishedPieces)
          else Inl (LogFatal e)
      | (bs, None) \<Rightarrow>
          (case checkHash mi (bs @ drop (length bs) buf) (int pidx) of
             Inl a \<Rightarrow> Inl a
           | Inr ok \<Rightarrow>
               Verify_single mi f (offset + length bs) (bs @ drop (length bs) buf)
                 (pidx + 20) (finishedPieces @ [ok])))"
  by pat_completeness auto
termination
  by (relation "measure (\<lambda>(mi, f, offset, buf, pidx, fin).
                  length (Pieces (MInfo mi)) + 20 - pidx)")
    (auto simp: checkHash_def split: if_splits)

declare Verify_single.simps [simp del]

text \<open>
  \<^verbatim>\<open>Verify\<close>: the buffer of \<^verbatim>\<open>PieceLength\<close> bytes is made (a negative length panics),
  the files are read in the multi-file or the single-file branch, and a partial read
  that is left over is hashed as the last piece.
\<close>

definition last_partial ::
  "MetaInfo \<Rightarrow> byte list \<times> nat \<times> nat \<times> bool list \<Rightarrow> abort + bool list" where
  "last_partial mi st =
     (case st of (buf, k, pidx, finishedPieces) \<Rightarrow>
        if k > 0
        then (case checkHash mi (take k buf) (int pidx) of
                Inl a \<Rightarrow> Inl a
              | Inr ok \<Rightarrow> Inr (finishedPieces @ [ok]))
        else Inr finishedPieces)"

definition Verify :: "DiskIO \<Rightarrow> abort + bool list" where
  "Verify d =
     (if sint (PieceLength (MInfo (dmetaInfo d))) < 0 then Inl MakeSliceLenOutOfRange
      else if length (Files (MInfo (dmetaInfo d))) > 0 then
        (case Verify_files (dmetaInfo d) (files d) [0..<length (Files (MInfo (dmetaInfo d)))]
                (replicate (nat (sint (PieceLength (MInfo (dmetaInfo d))))) 0, 0, 0, []) of
           Inl a \<Rightarrow> Inl a
         | Inr st \<Rightarrow> last_partial (dmetaInfo d) st)
      else if files d = [] then Inl IndexOutOfRange
      else
        (case Verify_single (dmetaInfo d) (files d ! 0) 0
                (replicate (nat (sint (PieceLength (MInfo (dmetaInfo d))))) 0) 0 [] of
           Inl a \<Rightarrow> Inl a
         | Inr st \<Rightarrow> last_partial (dmetaInfo d) st))"

subsection \<open>What Verify hashes\<close>

text \<open>
  The bytes on disk in the order in which \<^verbatim>\<open>Verify\<close> reads them: the contents of the
  files at the indices of \<^verbatim>\<open>Files\<close>, one after the other, or of the one file of a
  single-file torrent.
\<close>

definition disk_bytes :: "DiskIO \<Rightarrow> byte list" where
  "disk_bytes d =
     (if Files (MInfo (dmetaInfo d)) = [] then contents (files d ! 0)
      else concat (map contents (take (length (Files (MInfo (dmetaInfo d)))) (files d))))"

text \<open>
  The comparison of the first \<open>q\<close> chunks of \<open>n\<close> bytes of \<open>S\<close> with the 20-byte entries
  of \<^verbatim>\<open>Pieces\<close> from the byte offset \<open>pidx\<close> on.
\<close>

definition chunk_hashes :: "MetaInfo \<Rightarrow> nat \<Rightarrow> nat \<Rightarrow> byte list \<Rightarrow> nat \<Rightarrow> bool list" where
  "chunk_hashes mi n pidx S q =
     map (\<lambda>j. sha1 (take n (drop (j * n) S))
               = take 20 (drop (pidx + 20 * j) (Pieces (MInfo mi)))) [0..<q]"

definition chunk_count :: "DiskIO \<Rightarrow> nat" where
  "chunk_count d =
     (length (disk_bytes d) + nat (sint (PieceLength (MInfo (dmetaInfo d)))) - 1)
       div nat (sint (PieceLength (MInfo (dmetaInfo d))))"

subsection \<open>Example torrents\<close>

text \<open>
  A single-file torrent of 32 bytes in two pieces of 16; the recorded digest of piece 0
  is twenty zero bytes, that of piece 1 is the SHA-1 of the bytes 17 to 32.
\<close>

definition piece1_digest :: "byte list" where
  "piece1_digest =
     [0x87, 0xa5, 0xe7, 0x42, 0x39, 0xf6, 0x6b, 0x85, 0x47, 0x02, 0xca, 0x89, 0x64,
      0x9b, 0x6d, 0xa5, 0x0e, 0x76, 0xcd, 0x8d]"

definition single_meta :: MetaInfo where
  "single_meta =
     \<lparr>MInfo = \<lparr>PieceLength = 16, Pieces = replicate 20 0 @ piece1_digest, Private = 0,
               Name = ''t'', InfoLength = 32, InfoMd5sum = [], Files = []\<rparr>,
      Announce = []\<rparr>"

text \<open>
  A torrent of two files of 10 and 22 bytes in two pieces of 16: piece 0 is the bytes
  0 to 9 of the first file and 0 to 5 of the second.
\<close>

definition two_file_meta :: MetaInfo where
  "two_file_meta =
     \<lparr>MInfo = \<lparr>PieceLength = 16, Pieces = replicate 40 0, Private = 0, Name = ''t'',
               InfoLength = 0, InfoMd5sum = [],
               Files = [\<lparr>Length = 10, Md5sum = [], Path = [''A'']\<rparr>,
                        \<lparr>Length = 22, Md5sum = [], Path = [''B'']\<rparr>]\<rparr>,
      Announce = []\<rparr>"

text \<open>
  The same files in a torrent that also declares a single-file length of 5, with the one
  piece hash of a torrent of 5 bytes.
\<close>

definition both_meta :: MetaInfo where
  "both_meta =
     \<lparr>MInfo = \<lparr>PieceLength = 16, Pieces = replicate 20 0, Private = 0, Name = ''t'',
               InfoLength = 5, InfoMd5sum = [],
               Files = [\<lparr>Length = 10, Md5sum = [], Path = [''A'']\<rparr>,
                        \<lparr>Length = 22, Md5sum = [], Path = [''B'']\<rparr>]\<rparr>,
      Announce = []\<rparr>"

text \<open>
  The two-file torrent above on disk, with both files newly created and empty, and with
  both files complete; and piece 0 and piece 1 of 16 bytes each.
\<close>

definition two_file_new :: DiskIO where
  "two_file_new =
     \<lparr>dmetaInfo = two_file_meta,
      files = [\<lparr>contents = [], pos = 0, fault = None\<rparr>,
               \<lparr>contents = [], pos = 0, fault = None\<rparr>]\<rparr>"

definition two_file_full :: DiskIO where
  "two_file_full =
     \<lparr>dmetaInfo = two_file_meta,
      files = [\<lparr>contents = [1, 2, 3, 4, 5, 6, 7, 8, 9, 10], pos = 0, fault = None\<rparr>,
               \<lparr>contents = [11, 12, 13, 14, 15, 16, 17, 18, 19, 20, 21, 22, 23, 24, 25, 26,
                             27, 28, 29, 30, 31, 32], pos = 0, fault = None\<rparr>]\<rparr>"

definition piece0 :: Piece where
  "piece0 = \<lparr>index = 0, data = [1, 2, 3, 4, 5, 6, 7, 8, 9, 10, 11, 12, 13, 14, 15, 16],
             spare = [], peerName = ''peer''\<rparr>"

definition piece1 :: Piece where
  "piece1 = \<lparr>index = 1, data = [17, 18, 19, 20, 21, 22, 23, 24, 25, 26, 27, 28, 29, 30, 31, 32],
             spare = [], peerName = ''peer''\<rparr>"

text \<open>Piece 0 again, in a buffer of 48 bytes: 32 bytes of capacity after the data.\<close>

definition piece0_roomy :: Piece where
  "piece0_roomy = piece0\<lparr>spare := replicate 32 0\<rparr>"

definition block1 :: BlockInfo where
  "block1 = \<lparr>bi_pieceIndex = 1, bi_begin = 0, bi_length = 16\<rparr>"

text \<open>The same disk when the system refuses writes to the second file (\<open>ENOSPC\<close>, 28).\<close>

definition two_file_nospace :: DiskIO where
  "two_file_nospace =
     \<lparr>dmetaInfo = two_file_meta,
      files = [\<lparr>contents = [], pos = 0, fault = None\<rparr>,
               \<lparr>contents = [], pos = 0, fault = Some 28\<rparr>]\<rparr>"

definition short_file :: os_File where
  "short_file = \<lparr>contents = [1, 2, 3], pos = 0, fault = None\<rparr>"

text \<open>The single-file torrent above with its file newly created and empty.\<close>

definition single_new :: DiskIO where
  "single_new = \<lparr>dmetaInfo = single_meta, files = [\<lparr>contents = [], pos = 0, fault = None\<rparr>]\<rparr>"

text \<open>Four peers with the need-counts 3, 1, 1 and 2, in the order of the iteration.\<close>

definition peer_with :: "string \<Rightarrow> go_int \<Rightarrow> PeerInfo" where
  "peer_with name n =
     \<lparr>peerId = name, isChoked = False, availablePieces = [], activeRequests = {},
      qtyPiecesNeeded = n\<rparr>"

definition four_peers :: "(string \<times> PeerInfo) list" where
  "four_peers =
     [(''a'', peer_with ''a'' 3), (''b'', peer_with ''b'' 1),
      (''c'', peer_with ''c'' 1), (''d'', peer_with ''d'' 2)]"

text \<open>
  The stages of the SHA-1 of piece 1: the padded block, its sixteen words, and the 64
  words that the schedule adds.
\<close>

definition piece1_block :: "byte list" where
  "piece1_block = data piece1 @ 0x80 # replicate 39 0 @ [0, 0, 0, 0, 0, 0, 0, 0x80]"

definition piece1_words :: "u32 list" where
  "piece1_words =
     [0x11121314, 0x15161718, 0x191a1b1c, 0x1d1e1f20, 0x80000000] @ replicate 10 0 @ [0x80]"

definition piece1_sched :: "u32 list" where
  "piece1_sched =
     [0x10101010, 0x10101070, 0x32343739, 0x1a1c1e60, 0x202020e1, 0x64686e72,
      0x34383cc0, 0x404040c2, 0xe8f0fcc4, 0x48505960, 0xe4e8eff6, 0xe5d9c549,
      0xd0e0f302, 0x01010209, 0x83e3d333, 0x01614661, 0x97abb3c9, 0x837f0887,
      0xef3b7c9f, 0x180c0d24, 0x8f0fcf48, 0x9424a04d, 0x8e4e3c26, 0x0cfd2117,
      0x1f2e016c, 0x41715111, 0xaf9c82f9, 0xc7f59611, 0x3afb7cd1, 0x77b0cdb8,
      0xbbe7959a, 0x68302641, 0x201c0704, 0xc3cb8250, 0x4f302edf, 0xd78278f8,
      0xf0e21bdf, 0x40b2c47b, 0xfa0ba051, 0xaabc9b31, 0xa03881d5, 0x7e89ca03,
      0xe1d6978c, 0x8fff4509, 0x1eee712e, 0x7dc9701d, 0xdc1eef8d, 0x3f529c1c,
      0x65bbb027, 0x6dbdbe4d, 0xc2ac7d20, 0xfae8935a, 0xf374e9da, 0xaad6a4ee,
      0xf98abaa6, 0x302649e8, 0x1d060521, 0xca8317c2, 0x1b65a4d4, 0x2bb146de,
      0xf60ec177, 0xe651d877, 0xd73d47a4, 0x298f559d]"

section \<open>SHA-1 of a piece\<close>

lemma sched_numeral:
  "sched (numeral n) win =
     rotl 1 (win ! 13 XOR win ! 8 XOR win ! 2 XOR win ! 0) #
     sched (pred_numeral n) (tl win @ [rotl 1 (win ! 13 XOR win ! 8 XOR win ! 2 XOR win ! 0)])"
  by (simp add: numeral_eq_Suc)

lemma replicate_numeral_Cons: "replicate (numeral k) x = x # replicate (pred_numeral k) x"
  by (simp add: numeral_eq_Suc)

lemma sha1_pad_piece1: "sha1_pad (data piece1) = piece1_block"
  by (simp add: sha1_pad_def be64_def piece1_block_def piece1_def)

lemma chunks_piece1_block: "chunks (length piece1_block div 64) piece1_block = [piece1_block]"
  by (simp add: piece1_block_def piece1_def)

lemma be32s_piece1_block: "be32s piece1_block = piece1_words"
  by (simp add: piece1_block_def piece1_words_def piece1_def replicate_numeral_Cons)

lemma sched_piece1_words: "sched 64 piece1_words = piece1_sched"
  unfolding piece1_words_def piece1_sched_def
  by (simp add: sched_numeral rotl_def replicate_numeral_Cons)

lemma sha1_rounds_piece1:
  "sha1_rounds 0 (piece1_words @ piece1_sched)
     (0x67452301, 0xEFCDAB89, 0x98BADCFE, 0x10325476, 0xC3D2E1F0)
   = (0x2060c441, 0x4a28bffc, 0xae47ed8b, 0x5469192f, 0x4aa3eb9d)"
  unfolding piece1_words_def piece1_sched_def
  by (simp add: rotl_def sha1_f_def sha1_k_def replicate_numeral_Cons)

lemma sha1_piece1: "sha1 (data piece1) = piece1_digest"
  by (simp add: sha1_def sha1_pad_piece1 chunks_piece1_block be32s_piece1_block
      sched_piece1_words sha1_rounds_piece1 add32_def word_bytes_def piece1_digest_def)

lemma length_piece1_digest: "length piece1_digest = 20"
  by (simp add: piece1_digest_def)

section \<open>Checking a piece's hash\<close>

lemma pieceHashes_nth:
  "p < length (pieceHashes mi) \<Longrightarrow>
   pieceHashes mi ! p = take 20 (drop (20 * p) (Pieces (MInfo mi)))"
  by (simp add: pieceHashes_def)

lemma pieceHashes_single_meta: "pieceHashes single_meta = [replicate 20 0, piece1_digest]"
proof -
  have "[0..<2] = [0, 1]"
    by (simp add: eval_nat_numeral)
  then show ?thesis
    by (simp add: pieceHashes_def single_meta_def length_piece1_digest)
qed

text \<open>
  C2, as stated, fails: the second argument of \<^verbatim>\<open>checkHash\<close> is used as a byte offset
  into \<^verbatim>\<open>Pieces\<close>. The buffer of piece 1 has the digest recorded for piece 1, and
  \<^verbatim>\<open>checkHash(buffer, 1)\<close> compares it with bytes 1 to 20 and returns false.
\<close>

theorem checkHash_index_counterexample:
  "sha1 (data piece1) = pieceHashes single_meta ! 1
   \<and> checkHash single_meta (data piece1) 1 = Inr False"
proof -
  have "pieceHashes single_meta ! 1 = piece1_digest"
    by (simp add: pieceHashes_single_meta)
  moreover have "checkHash single_meta (data piece1) 1 = Inr False"
    by (simp add: checkHash_def single_meta_def sha1_piece1 piece1_digest_def
        replicate_numeral_Cons)
  ultimately show ?thesis
    by (simp add: sha1_piece1)
qed

text \<open>
  C2, amended. Called with the byte offset \<open>20 * p\<close> of an existing piece \<open>p\<close>, as
  \<^verbatim>\<open>Verify\<close> calls it, \<^verbatim>\<open>checkHash\<close> returns true when the SHA-1 of the buffer is the
  \<open>p\<close>-th 20-byte entry of \<^verbatim>\<open>Pieces\<close> and false when it is not.
\<close>

theorem checkHash_offset:
  "p < length (pieceHashes mi) \<Longrightarrow>
   checkHash mi buf (20 * int p) = Inr (sha1 buf = pieceHashes mi ! p)"
proof -
  assume p: "p < length (pieceHashes mi)"
  then have "p < length (Pieces (MInfo mi)) div 20"
    by (simp add: pieceHashes_def)
  then have "20 * p + 20 \<le> length (Pieces (MInfo mi))"
    by arith
  moreover have "nat (20 * int p) = 20 * p"
    by (simp add: nat_mult_distrib)
  ultimately show ?thesis
    using p by (simp add: checkHash_def pieceHashes_nth)
qed

theorem checkHash_offset_witness:
  "1 < length (pieceHashes single_meta)
   \<and> checkHash single_meta (data piece1) 20 = Inr True"
  using checkHash_offset [of 1 single_meta "data piece1"]
  by (simp add: pieceHashes_single_meta sha1_piece1)

text \<open>Outside the hash list the slice expression panics.\<close>

lemma checkHash_out_of_range:
  "pieceIndex < 0 \<or> int (length (Pieces (MInfo mi))) < pieceIndex + 20 \<Longrightarrow>
   checkHash mi buf pieceIndex = Inl SliceBoundsOutOfRange"
  by (auto simp: checkHash_def)

section \<open>Verifying the files on disk\<close>

text \<open>
  C1, as stated, fails. With the files newly created and empty, every read ends at
  \<open>EOF\<close> with nothing read, and \<^verbatim>\<open>Verify\<close> returns the empty list for a torrent of two
  pieces, in the single-file and in the multi-file layout: the pieces that could not
  be read are left out, not reported as false.
\<close>

theorem Verify_new_files_counterexample:
  "Verify single_new = Inr [] \<and> length (pieceHashes single_meta) = 2
   \<and> Verify two_file_new = Inr [] \<and> length (pieceHashes two_file_meta) = 2"
  by (simp add: Verify_def single_new_def single_meta_def Verify_single.simps ReadAt_def
      last_partial_def two_file_new_def two_file_meta_def Verify_read.simps upt_rec
      pieceHashes_def length_piece1_digest)

text \<open>
  One run of the inner loop hashes the whole chunks of the bytes that are pending in
  the buffer followed by the rest of the file, and leaves the bytes of the last,
  incomplete chunk in the buffer.
\<close>

lemma ReadAt_full:
  "fault f = None \<Longrightarrow> 0 < n \<Longrightarrow> n \<le> length (drop off (contents f)) \<Longrightarrow>
   ReadAt f n off = (take n (drop off (contents f)), None)"
  by (simp add: ReadAt_def)

lemma ReadAt_short:
  "fault f = None \<Longrightarrow> length (drop off (contents f)) < n \<Longrightarrow>
   ReadAt f n off = (drop off (contents f), Some EOF)"
  by (simp add: ReadAt_def)

lemma chunk_hashes_0: "chunk_hashes mi n pidx S 0 = []"
  by (simp add: chunk_hashes_def)

lemma chunk_hashes_Suc:
  "chunk_hashes mi n pidx S (Suc q) =
     (sha1 (take n S) = take 20 (drop pidx (Pieces (MInfo mi))))
       # chunk_hashes mi n (pidx + 20) (drop n S) q"
proof -
  have "[0..<Suc q] = 0 # map Suc [0..<q]"
    by (simp add: upt_conv_Cons map_Suc_upt del: upt_Suc)
  then show ?thesis
    by (simp add: chunk_hashes_def ac_simps del: upt_Suc)
qed

lemma chunk_hashes_append:
  "q1 * n \<le> length S1 \<Longrightarrow>
   chunk_hashes mi n pidx (S1 @ T) (q1 + q2) =
     chunk_hashes mi n pidx S1 q1
       @ chunk_hashes mi n (pidx + 20 * q1) (drop (q1 * n) S1 @ T) q2"
proof (induction q1 arbitrary: pidx S1)
  case 0
  then show ?case
    by (simp add: chunk_hashes_0)
next
  case (Suc q1)
  then have n: "n \<le> length S1" and rest: "q1 * n \<le> length (drop n S1)"
    by simp_all
  from Suc.IH [OF rest, of "pidx + 20"] n show ?case
    by (simp add: chunk_hashes_Suc ac_simps)
qed

lemma Verify_read_chunks:
  "fault f = None \<Longrightarrow> length buf = n \<Longrightarrow> m < n \<Longrightarrow>
   S = take m buf @ drop offset (contents f) \<Longrightarrow> q = length S div n \<Longrightarrow>
   pidx + 20 * q \<le> length (Pieces (MInfo mi)) \<Longrightarrow>
   \<exists>buf'. Verify_read mi f offset buf m pidx fin
            = Inr (buf', length S mod n, pidx + 20 * q, fin @ chunk_hashes mi n pidx S q)
        \<and> length buf' = n \<and> take (length S mod n) buf' = drop (q * n) S"
proof (induction q arbitrary: offset buf m pidx fin S)
  case 0
  let ?R = "drop offset (contents f)"
  have lenS: "length S = m + length ?R"
    using 0 by simp
  have lt: "length S < n"
    using 0 by (simp add: div_eq_0_iff)
  then have rd: "ReadAt f (n - m) offset = (?R, Some EOF)"
    using 0 lenS by (intro ReadAt_short) simp_all
  have "Verify_read mi f offset buf m pidx fin
      = Inr (take m buf @ ?R @ drop (m + length ?R) buf, length S, pidx, fin)"
    using 0 rd lenS by (subst Verify_read.simps) simp
  moreover have "take (length S) (take m buf @ ?R @ drop (m + length ?R) buf) = S"
    using 0 lenS by simp
  moreover have "length (take m buf @ ?R @ drop (m + length ?R) buf) = n"
    using 0 lenS lt by simp
  ultimately show ?case
    using lt by (simp add: chunk_hashes_0)
next
  case (Suc q)
  let ?R = "drop offset (contents f)"
  let ?bs = "take (n - m) ?R"
  have lenS: "length S = m + length ?R"
    using Suc.prems by simp
  have "Suc q * n \<le> length S"
    using Suc.prems(5) div_times_less_eq_dividend [of "length S" n] by simp
  then have ge: "n \<le> length S"
    by simp
  then have avail: "n - m \<le> length ?R"
    using lenS by simp
  have rd: "ReadAt f (n - m) offset = (?bs, None)"
    using Suc.prems avail by (intro ReadAt_full) simp_all
  have lenbs: "length ?bs = n - m"
    using avail by simp
  have buf1: "take m buf @ ?bs @ drop (m + length ?bs) buf = take n S"
    using Suc.prems lenbs by simp
  have hash: "checkHash mi (take n S) (int pidx)
      = Inr (sha1 (take n S) = take 20 (drop pidx (Pieces (MInfo mi))))"
    using Suc.prems(6) by (simp add: checkHash_def)
  let ?ok = "sha1 (take n S) = take 20 (drop pidx (Pieces (MInfo mi)))"
  have step: "Verify_read mi f offset buf m pidx fin
      = Verify_read mi f (offset + (n - m)) (take n S) 0 (pidx + 20) (fin @ [?ok])"
    using Suc.prems rd buf1 hash lenbs by (subst Verify_read.simps) simp
  have S': "drop n S = take 0 (take n S) @ drop (offset + (n - m)) (contents f)"
    using Suc.prems by (simp add: add.commute)
  have q: "q = length (drop n S) div n"
    using Suc.prems(5) ge Suc.prems(3) le_div_geq [of n "length S"] by simp
  have "\<exists>buf'. Verify_read mi f (offset + (n - m)) (take n S) 0 (pidx + 20) (fin @ [?ok])
            = Inr (buf', length (drop n S) mod n, pidx + 20 + 20 * q,
                   (fin @ [?ok]) @ chunk_hashes mi n (pidx + 20) (drop n S) q)
        \<and> length buf' = n \<and> take (length (drop n S) mod n) buf' = drop (q * n) (drop n S)"
    using Suc.prems ge by (intro Suc.IH [OF _ _ _ S' q]) simp_all
  moreover have "length (drop n S) mod n = length S mod n"
    using ge by (simp add: le_mod_geq)
  ultimately show ?case
    using step by (simp add: chunk_hashes_Suc ac_simps)
qed


lemma drop_add_mult: "drop ((a + b) * n) xs = drop (b * n) (drop (a * n) xs)"
  by (simp add: add_mult_distrib add.commute)

lemma drop_append_le: "k \<le> length xs \<Longrightarrow> drop k (xs @ ys) = drop k xs @ ys"
  by simp

lemma Verify_files_chunks:
  "\<forall>i\<in>set is. i < length fs \<and> fault (fs ! i) = None \<Longrightarrow> length buf = n \<Longrightarrow> m < n \<Longrightarrow>
   S = take m buf @ concat (map (\<lambda>i. contents (fs ! i)) is) \<Longrightarrow> q = length S div n \<Longrightarrow>
   pidx + 20 * q \<le> length (Pieces (MInfo mi)) \<Longrightarrow>
   \<exists>buf'. Verify_files mi fs is (buf, m, pidx, fin)
            = Inr (buf', length S mod n, pidx + 20 * q, fin @ chunk_hashes mi n pidx S q)
        \<and> length buf' = n \<and> take (length S mod n) buf' = drop (q * n) S"
proof (induction "is" arbitrary: buf m pidx fin S q)
  case Nil
  then show ?case
    by (simp add: chunk_hashes_0)
next
  case (Cons i "is")
  let ?T = "concat (map (\<lambda>i. contents (fs ! i)) is)"
  let ?S1 = "take m buf @ drop 0 (contents (fs ! i))"
  let ?q1 = "length ?S1 div n"
  let ?r1 = "length ?S1 mod n"
  have S: "S = ?S1 @ ?T"
    using Cons.prems by simp
  have i: "i < length fs" "fault (fs ! i) = None"
    using Cons.prems(1) by simp_all
  have n: "0 < n"
    using Cons.prems(3) by simp
  have "?q1 \<le> q"
    using Cons.prems(5) S by (simp add: div_le_mono)
  then have room1: "pidx + 20 * ?q1 \<le> length (Pieces (MInfo mi))"
    using Cons.prems(6) by simp
  from Verify_read_chunks [OF i(2) Cons.prems(2) Cons.prems(3) refl refl room1, of fin]
  obtain buf1 where buf1:
    "Verify_read mi (fs ! i) 0 buf m pidx fin
       = Inr (buf1, ?r1, pidx + 20 * ?q1, fin @ chunk_hashes mi n pidx ?S1 ?q1)"
    "length buf1 = n" "take ?r1 buf1 = drop (?q1 * n) ?S1"
    by blast
  let ?S2 = "take ?r1 buf1 @ ?T"
  let ?q2 = "length ?S2 div n"
  have r1: "?r1 < n"
    using n by simp
  have len1: "length ?S1 = ?q1 * n + ?r1"
    by simp
  have lenS2: "length ?S2 = ?r1 + length ?T"
    using buf1(2) r1 by simp
  have lenS: "length S = ?q1 * n + length ?S2"
    using S lenS2 len1 by (metis add.assoc length_append)
  have q: "q = ?q1 + ?q2"
    using Cons.prems(5) lenS n by simp
  have md: "length S mod n = length ?S2 mod n"
    using lenS by simp
  have room2: "pidx + 20 * ?q1 + 20 * ?q2 \<le> length (Pieces (MInfo mi))"
    using Cons.prems(6) q by simp
  have rest: "\<forall>i\<in>set is. i < length fs \<and> fault (fs ! i) = None"
    using Cons.prems(1) by simp
  from Cons.IH [OF rest buf1(2) r1 refl refl room2,
      of "fin @ chunk_hashes mi n pidx ?S1 ?q1"]
  obtain buf' where buf':
    "Verify_files mi fs is
        (buf1, ?r1, pidx + 20 * ?q1, fin @ chunk_hashes mi n pidx ?S1 ?q1)
       = Inr (buf', length ?S2 mod n, pidx + 20 * ?q1 + 20 * ?q2,
              (fin @ chunk_hashes mi n pidx ?S1 ?q1)
                @ chunk_hashes mi n (pidx + 20 * ?q1) ?S2 ?q2)"
    "length buf' = n" "take (length ?S2 mod n) buf' = drop (?q2 * n) ?S2"
    by blast
  have fit: "?q1 * n \<le> length ?S1"
    by simp
  have hashes: "chunk_hashes mi n pidx S q
      = chunk_hashes mi n pidx ?S1 ?q1 @ chunk_hashes mi n (pidx + 20 * ?q1) ?S2 ?q2"
    unfolding S q buf1(3) by (rule chunk_hashes_append [OF fit])
  have "drop (q * n) S = drop (?q2 * n) (drop (?q1 * n) (?S1 @ ?T))"
    unfolding S q by (rule drop_add_mult)
  also have "drop (?q1 * n) (?S1 @ ?T) = drop (?q1 * n) ?S1 @ ?T"
    using fit by (rule drop_append_le)
  also have "\<dots> = ?S2"
    by (simp only: buf1(3))
  finally have tail: "drop (q * n) S = drop (?q2 * n) ?S2" .
  have "Verify_files mi fs (i # is) (buf, m, pidx, fin)
      = Inr (buf', length S mod n, pidx + 20 * q, fin @ chunk_hashes mi n pidx S q)"
    using i(1) buf1(1) buf'(1) hashes md q by (simp add: add_mult_distrib2)
  with buf'(2,3) md tail show ?case
    by simp
qed

lemma Verify_single_read:
  "Verify_single mi f offset buf pidx fin = Verify_read mi f offset buf 0 pidx fin"
proof (induction mi f offset buf pidx fin rule: Verify_single.induct)
  case (1 mi f offset buf pidx fin)
  show ?case
    by (subst Verify_single.simps, subst Verify_read.simps)
       (auto split: prod.splits option.splits sum.splits simp: "1.IH")
qed

lemma map_nth_upt_take:
  "k \<le> length xs \<Longrightarrow> map (\<lambda>i. g (xs ! i)) [0..<k] = map g (take k xs)"
  by (rule nth_equalityI) simp_all

lemma ceil_div:
  "0 < (n::nat) \<Longrightarrow> (L + n - 1) div n = L div n + (if L mod n = 0 then 0 else 1)"
proof -
  assume n: "0 < n"
  have L: "n * (L div n) + L mod n = L"
    by simp
  have r: "L mod n < n"
    using n by simp
  have s1: "n * Suc (L div n) = n * (L div n) + n"
    by simp
  have s2: "n * Suc (Suc (L div n)) = n * (L div n) + n + n"
    by simp
  show ?thesis
  proof (cases "L mod n = 0")
    case True
    have "(L + n - 1) div n = L div n"
    proof (rule Euclidean_Rings.div_nat_eqI)
      show "n * (L div n) \<le> L + n - 1"
        using L True n by arith
      show "L + n - 1 < n * Suc (L div n)"
        unfolding s1 using L True n by arith
    qed
    with True show ?thesis by simp
  next
    case False
    have "(L + n - 1) div n = Suc (L div n)"
    proof (rule Euclidean_Rings.div_nat_eqI)
      show "n * Suc (L div n) \<le> L + n - 1"
        unfolding s1 using L False n by arith
      show "L + n - 1 < n * Suc (Suc (L div n))"
        unfolding s2 using L r n by arith
    qed
    with False show ?thesis by simp
  qed
qed

lemma length_chunk_hashes: "length (chunk_hashes mi n pidx S q) = q"
  by (simp add: chunk_hashes_def)

lemma chunk_hashes_snoc:
  "chunk_hashes mi n pidx S (Suc q) =
     chunk_hashes mi n pidx S q
       @ [sha1 (take n (drop (q * n) S)) = take 20 (drop (pidx + 20 * q) (Pieces (MInfo mi)))]"
  by (simp add: chunk_hashes_def)

lemma last_partial_chunks:
  assumes n: "0 < n"
    and r: "take (length S mod n) buf' = drop (length S div n * n) S"
    and room: "20 * ((length S + n - 1) div n) \<le> length (Pieces (MInfo mi))"
  shows "last_partial mi (buf', length S mod n, 20 * (length S div n),
            chunk_hashes mi n 0 S (length S div n))
         = Inr (chunk_hashes mi n 0 S ((length S + n - 1) div n))"
proof (cases "length S mod n = 0")
  case True
  then show ?thesis
    using n ceil_div [OF n, of "length S"] by (simp add: last_partial_def)
next
  case False
  have cnt: "(length S + n - 1) div n = Suc (length S div n)"
    using False ceil_div [OF n, of "length S"] by simp
  have "length (drop (length S div n * n) S) = length S mod n"
    by (simp add: minus_div_mult_eq_mod)
  then have whole: "take n (drop (length S div n * n) S) = drop (length S div n * n) S"
    using n by simp
  have "checkHash mi (drop (length S div n * n) S) (int (20 * (length S div n)))
      = Inr (sha1 (drop (length S div n * n) S)
              = take 20 (drop (20 * (length S div n)) (Pieces (MInfo mi))))"
    using room cnt by (simp add: checkHash_def nat_mult_distrib)
  with False r show ?thesis
    unfolding cnt chunk_hashes_snoc whole by (simp add: last_partial_def)
qed

text \<open>
  C1, amended. With a positive piece length, files that can be read and enough recorded
  hashes, \<^verbatim>\<open>Verify\<close> returns one boolean for every chunk of \<^verbatim>\<open>PieceLength\<close> bytes of the
  bytes that are on disk (the files one after the other, the last chunk possibly
  short): entry \<open>j\<close> tells whether the SHA-1 of chunk \<open>j\<close> is the \<open>j\<close>-th recorded digest.
  That is one entry per piece index only when the bytes on disk fill every piece.
\<close>

theorem Verify_chunks:
  "0 < sint (PieceLength (MInfo (dmetaInfo d))) \<Longrightarrow>
   files d \<noteq> [] \<Longrightarrow> length (Files (MInfo (dmetaInfo d))) \<le> length (files d) \<Longrightarrow>
   \<forall>f\<in>set (files d). fault f = None \<Longrightarrow>
   20 * chunk_count d \<le> length (Pieces (MInfo (dmetaInfo d))) \<Longrightarrow>
   Verify d = Inr (chunk_hashes (dmetaInfo d) (nat (sint (PieceLength (MInfo (dmetaInfo d)))))
                     0 (disk_bytes d) (chunk_count d))
   \<and> length (chunk_hashes (dmetaInfo d) (nat (sint (PieceLength (MInfo (dmetaInfo d)))))
                     0 (disk_bytes d) (chunk_count d)) = chunk_count d"
proof -
  let ?mi = "dmetaInfo d"
  let ?n = "nat (sint (PieceLength (MInfo ?mi)))"
  let ?S = "disk_bytes d"
  let ?q = "length ?S div ?n"
  assume pl: "0 < sint (PieceLength (MInfo ?mi))"
    and ne: "files d \<noteq> []"
    and len: "length (Files (MInfo ?mi)) \<le> length (files d)"
    and ok: "\<forall>f\<in>set (files d). fault f = None"
    and room: "20 * chunk_count d \<le> length (Pieces (MInfo ?mi))"
  have n: "0 < ?n"
    using pl by simp
  have room': "20 * ((length ?S + ?n - 1) div ?n) \<le> length (Pieces (MInfo ?mi))"
    using room by (simp add: chunk_count_def)
  have "?q \<le> (length ?S + ?n - 1) div ?n"
    using ceil_div [OF n, of "length ?S"] by simp
  then have roomq: "0 + 20 * ?q \<le> length (Pieces (MInfo ?mi))"
    using room' by simp
  have lenbuf: "length (replicate ?n (0::byte)) = ?n"
    by simp
  have loop: "\<exists>buf'. (if length (Files (MInfo ?mi)) > 0
        then Verify_files ?mi (files d) [0..<length (Files (MInfo ?mi))]
               (replicate ?n 0, 0, 0, [])
        else Verify_single ?mi (files d ! 0) 0 (replicate ?n 0) 0 [])
      = Inr (buf', length ?S mod ?n, 20 * ?q, chunk_hashes ?mi ?n 0 ?S ?q)
      \<and> take (length ?S mod ?n) buf' = drop (?q * ?n) ?S"
  proof (cases "length (Files (MInfo ?mi)) > 0")
    case True
    have idx: "\<forall>i\<in>set [0..<length (Files (MInfo ?mi))].
        i < length (files d) \<and> fault (files d ! i) = None"
      using len ok by auto
    have S: "?S = take 0 (replicate ?n (0::byte))
        @ concat (map (\<lambda>i. contents (files d ! i)) [0..<length (Files (MInfo ?mi))])"
      using True len by (simp add: disk_bytes_def map_nth_upt_take)
    from Verify_files_chunks [OF idx lenbuf n S refl roomq, of "[]"] True show ?thesis
      by auto
  next
    case False
    have f: "fault (files d ! 0) = None"
      using ne ok by (simp add: hd_conv_nth [symmetric])
    have S: "?S = take 0 (replicate ?n (0::byte)) @ drop 0 (contents (files d ! 0))"
      using False by (simp add: disk_bytes_def)
    from Verify_read_chunks [OF f lenbuf n S refl roomq, of "[]"] False show ?thesis
      by (auto simp: Verify_single_read)
  qed
  then obtain buf' where buf':
    "(if length (Files (MInfo ?mi)) > 0
        then Verify_files ?mi (files d) [0..<length (Files (MInfo ?mi))]
               (replicate ?n 0, 0, 0, [])
        else Verify_single ?mi (files d ! 0) 0 (replicate ?n 0) 0 [])
      = Inr (buf', length ?S mod ?n, 20 * ?q, chunk_hashes ?mi ?n 0 ?S ?q)"
    "take (length ?S mod ?n) buf' = drop (?q * ?n) ?S"
    by blast
  have "Verify d = last_partial ?mi
      (buf', length ?S mod ?n, 20 * ?q, chunk_hashes ?mi ?n 0 ?S ?q)"
    using buf'(1) pl ne by (auto simp: Verify_def split: if_splits)
  also have "\<dots> = Inr (chunk_hashes ?mi ?n 0 ?S ((length ?S + ?n - 1) div ?n))"
    using n buf'(2) room' by (rule last_partial_chunks)
  finally show ?thesis
    by (simp add: chunk_count_def length_chunk_hashes)
qed

theorem Verify_chunks_witness:
  "0 < sint (PieceLength (MInfo (dmetaInfo two_file_full)))
   \<and> files two_file_full \<noteq> []
   \<and> length (Files (MInfo (dmetaInfo two_file_full))) \<le> length (files two_file_full)
   \<and> fault (files two_file_full ! 0) = None \<and> fault (files two_file_full ! 1) = None
   \<and> 20 * chunk_count two_file_full \<le> length (Pieces (MInfo (dmetaInfo two_file_full)))
   \<and> chunk_count two_file_full = 2
   \<and> Verify two_file_full = Inr (chunk_hashes two_file_meta 16 0 (disk_bytes two_file_full) 2)"
proof -
  have c: "chunk_count two_file_full = 2"
    by (simp add: chunk_count_def disk_bytes_def two_file_full_def two_file_meta_def)
  have h: "0 < sint (PieceLength (MInfo (dmetaInfo two_file_full)))"
    "files two_file_full \<noteq> []"
    "length (Files (MInfo (dmetaInfo two_file_full))) \<le> length (files two_file_full)"
    "\<forall>f\<in>set (files two_file_full). fault f = None"
    "20 * chunk_count two_file_full \<le> length (Pieces (MInfo (dmetaInfo two_file_full)))"
    unfolding c by (simp_all add: two_file_full_def two_file_meta_def)
  have "nat (sint (PieceLength (MInfo (dmetaInfo two_file_full)))) = 16"
    "dmetaInfo two_file_full = two_file_meta"
    by (simp_all add: two_file_full_def two_file_meta_def)
  moreover have "fault (files two_file_full ! 0) = None" "fault (files two_file_full ! 1) = None"
    by (simp_all add: two_file_full_def)
  ultimately show ?thesis
    using Verify_chunks [OF h] h(1,2,3,5) c by simp
qed

section \<open>Writing a piece and reading it back\<close>

text \<open>
  C3. In the layout of the claim (piece length 16, files of 10 and 22 bytes) writing
  piece 0 puts bytes 0 to 9 into the first file and then, at the second file, takes
  \<open>max = 22\<close> and slices the six bytes that are left with \<^verbatim>\<open>piece.data[:22]\<close>: the
  write ends in a panic.
\<close>

theorem writePiece_straddle_panics:
  "writePiece two_file_new piece0 = Inl SliceBoundsOutOfRange"
  by (simp add: writePiece_def two_file_new_def two_file_meta_def piece0_def
      writePiece_loop.simps WriteAt_def Let_def)

text \<open>
  When the buffer of the piece has the capacity, the 22 bytes are written and the panic
  comes one statement later, at \<^verbatim>\<open>piece.data[22:]\<close>.
\<close>

lemma writePiece_roomy_panics:
  "writePiece two_file_new piece0_roomy = Inl SliceBoundsOutOfRange"
  by (simp add: writePiece_def two_file_new_def two_file_meta_def piece0_def piece0_roomy_def
      writePiece_loop.simps WriteAt_def Let_def)

text \<open>
  More generally no write is ever followed by a successful read: with files listed, the
  loop of \<^verbatim>\<open>requestBlock\<close> always reaches the index \<open>len(Files)\<close> and panics; with no
  files listed, \<^verbatim>\<open>writePiece\<close> indexes the empty list.
\<close>

lemma requestBlock_loop_aborts:
  "i \<le> length (Files (MInfo mi)) \<Longrightarrow> \<exists>a. requestBlock_loop mi block i offset rd fs = Inl a"
proof (induction mi block i offset rd fs rule: requestBlock_loop.induct)
  case (1 mi block i offset rd fs)
  show ?case
  proof (cases "length (Files (MInfo mi)) \<le> i")
    case True
    with "1.prems" show ?thesis
      by (subst requestBlock_loop.simps) simp
  next
    case False
    then have next_ok: "i + 1 \<le> length (Files (MInfo mi))"
      by simp
    show ?thesis
    proof (cases "sint (Length (Files (MInfo mi) ! i)) < sint offset")
      case True
      with False "1.prems" "1.IH"(1) next_ok show ?thesis
        by (subst requestBlock_loop.simps) simp
    next
      case far: False
      show ?thesis
      proof (cases "length fs \<le> i")
        case True
        with False far "1.prems" show ?thesis
          by (subst requestBlock_loop.simps) simp
      next
        case short: False
        show ?thesis
        proof (cases "readBlock (fs ! i) block")
          case (Inl a)
          with False far short "1.prems" show ?thesis
            by (subst requestBlock_loop.simps) simp
        next
          case (Inr r)
          obtain bytes f where r: "r = (bytes, f)"
            by (cases r)
          from "1.IH"(2) [OF "1.prems" False far short Inr [unfolded r] refl next_ok]
          obtain a where "requestBlock_loop mi block (i + 1) offset bytes (fs[i := f]) = Inl a"
            by blast
          with False far short "1.prems" Inr r show ?thesis
            by (subst requestBlock_loop.simps) simp
        qed
      qed
    qed
  qed
qed

lemma requestBlock_multi_file_aborts:
  "Files (MInfo (dmetaInfo d)) \<noteq> [] \<Longrightarrow> \<exists>a. requestBlock d block = Inl a"
  using requestBlock_loop_aborts [of 0 "dmetaInfo d" block
      "ucast (bi_pieceIndex block) * PieceLength (MInfo (dmetaInfo d))" "[]" "files d"]
  by (auto simp: requestBlock_def)

lemma writePiece_single_file_aborts:
  "Files (MInfo (dmetaInfo d)) = [] \<Longrightarrow> writePiece d piece = Inl IndexOutOfRange"
  by (simp add: writePiece_def writePiece_loop.simps)

lemma writePiece_dmetaInfo:
  "writePiece d piece = Inr d' \<Longrightarrow> dmetaInfo d' = dmetaInfo d"
  by (auto simp: writePiece_def split: sum.splits)

lemma write_then_read_aborts:
  "writePiece d piece = Inr d' \<Longrightarrow> \<exists>a. requestBlock d' block = Inl a"
proof -
  assume w: "writePiece d piece = Inr d'"
  then have "Files (MInfo (dmetaInfo d)) \<noteq> []"
    using writePiece_single_file_aborts [of d piece] by auto
  then have "Files (MInfo (dmetaInfo d')) \<noteq> []"
    using writePiece_dmetaInfo [OF w] by simp
  then show ?thesis
    by (rule requestBlock_multi_file_aborts)
qed


section \<open>Indices and offsets of the file walk\<close>

text \<open>
  C4. With both files complete, reading the 16 bytes of piece 1 (within the total length
  of 32) walks to the second file, reads, and goes on to index 2 of the two-element file
  list, where the process panics.
\<close>

theorem requestBlock_index_out_of_range:
  "requestBlock two_file_full block1 = Inl IndexOutOfRange"
  by (simp add: requestBlock_def two_file_full_def two_file_meta_def block1_def
      requestBlock_loop.simps readBlock_def ReadFull_def)

section \<open>I/O failures\<close>

text \<open>
  C6, as stated, fails: when the system refuses the write to the second file, writing
  piece 1 ends the process through \<^verbatim>\<open>log.Fatal\<close>.
\<close>

theorem writePiece_failure_counterexample:
  "writePiece two_file_nospace piece1 = Inl (LogFatal (Errno 28))"
  by (simp add: writePiece_def two_file_nospace_def two_file_meta_def piece1_def
      writePiece_loop.simps WriteAt_def Let_def)

text \<open>
  C6, amended. A failure of \<^verbatim>\<open>io.ReadFull\<close> in \<^verbatim>\<open>readBlock\<close>, and a failure of the
  \<^verbatim>\<open>WriteAt\<close> that \<^verbatim>\<open>writePiece\<close> makes at any step of its walk, end the process through
  \<^verbatim>\<open>log.Fatal\<close> with that error; nothing is reported to the caller.
\<close>

theorem io_failure_is_fatal:
  "(ReadFull file (unat (bi_length block)) = Inl e \<longrightarrow> readBlock file block = Inl (LogFatal e))
   \<and> (i < length (Files (MInfo mi)) \<and> i < length fs
        \<and> \<not> sint (Length (Files (MInfo mi) ! i)) < sint offset
        \<and> 0 \<le> sint (Length (Files (MInfo mi) ! i) - offset)
        \<and> sint (Length (Files (MInfo mi) ! i) - offset) \<le> int (length pdata + length pspare)
        \<and> WriteAt (fs ! i)
              (take (nat (sint (Length (Files (MInfo mi) ! i) - offset))) (pdata @ pspare))
              (sint offset) = Inl e'
      \<longrightarrow> writePiece_loop mi i offset pdata pspare fs = Inl (LogFatal e'))"
  by (subst writePiece_loop.simps) (auto simp: readBlock_def Let_def)


theorem io_failure_is_fatal_witness:
  "ReadFull short_file (unat (bi_length block1)) = Inl ErrUnexpectedEOF
   \<and> readBlock short_file block1 = Inl (LogFatal ErrUnexpectedEOF)
   \<and> WriteAt (files two_file_nospace ! 1) (data piece1) 6 = Inl (Errno 28)
   \<and> writePiece_loop two_file_meta 1 6 (data piece1) (spare piece1) (files two_file_nospace)
       = Inl (LogFatal (Errno 28))"
proof -
  have r: "ReadFull short_file (unat (bi_length block1)) = Inl ErrUnexpectedEOF"
    by (simp add: ReadFull_def short_file_def block1_def)
  have w: "WriteAt (files two_file_nospace ! 1) (data piece1) 6 = Inl (Errno 28)"
    by (simp add: WriteAt_def two_file_nospace_def piece1_def)
  have h: "1 < length (Files (MInfo two_file_meta)) \<and> 1 < length (files two_file_nospace)
      \<and> \<not> sint (Length (Files (MInfo two_file_meta) ! 1)) < sint (6 :: go_int)
      \<and> 0 \<le> sint (Length (Files (MInfo two_file_meta) ! 1) - 6)
      \<and> sint (Length (Files (MInfo two_file_meta) ! 1) - 6)
          \<le> int (length (data piece1) + length (spare piece1))
      \<and> WriteAt (files two_file_nospace ! 1)
            (take (nat (sint (Length (Files (MInfo two_file_meta) ! 1) - 6)))
               (data piece1 @ spare piece1))
            (sint (6 :: go_int)) = Inl (Errno 28)"
    using w by (simp add: two_file_meta_def two_file_nospace_def piece1_def)
  show ?thesis
    using io_failure_is_fatal [of short_file block1 ErrUnexpectedEOF 1 two_file_meta
        "files two_file_nospace" 6 "data piece1" "spare piece1" "Errno 28"] r w h
    by blast
qed

section \<open>Ranking the peers\<close>

lemma Swap_mset: "Swap sp i j = Inr sp' \<Longrightarrow> mset sp' = mset sp \<and> length sp' = length sp"
  by (auto simp: Swap_def mset_swap split: if_splits)

lemma Swaps_mset:
  "\<forall>(i, j)\<in>set calls. i < length sp \<and> j < length sp \<Longrightarrow>
   \<exists>out. Swaps calls sp = Inr out \<and> mset out = mset sp \<and> length out = length sp"
proof (induction calls arbitrary: sp)
  case Nil
  then show ?case by simp
next
  case (Cons c calls)
  obtain i j where c: "c = (i, j)"
    by (cases c)
  with Cons.prems have ij: "i < length sp" "j < length sp"
    by auto
  then obtain sp' where sp': "Swap sp i j = Inr sp'"
    by (auto simp: Swap_def)
  then have same: "mset sp' = mset sp" "length sp' = length sp"
    using Swap_mset by blast+
  with Cons.prems have "\<forall>(i, j)\<in>set calls. i < length sp' \<and> j < length sp'"
    by auto
  from Cons.IH [OF this] same sp' c show ?case
    by auto
qed

lemma map_of_values:
  "distinct (map fst es) \<Longrightarrow>
   image_mset (\<lambda>k. the (map_of es k)) (mset_set (dom (map_of es))) = mset (map snd es)"
proof -
  assume d: "distinct (map fst es)"
  have dom_eq: "dom (map_of es) = set (map fst es)"
    by (simp add: dom_map_of_conv_image_fst)
  have "mset_set (dom (map_of es)) = mset (map fst es)"
    by (simp only: dom_eq mset_set_set [OF d])
  moreover have "map (\<lambda>k. the (map_of es k)) (map fst es) = map snd es"
    using d by (induction es) (auto simp: rev_image_eqI)
  ultimately show ?thesis
    by (metis mset_map)
qed

lemma Less_adjacent:
  "Less (L @ y # x # rest) (Suc (length L)) (length L) = Inr (need_le x y)"
  by (simp add: Less_def need_le_def nth_append)

lemma Swap_adjacent:
  "Swap (L @ y # x # rest) (Suc (length L)) (length L) = Inr (L @ x # y # rest)"
  by (simp add: Swap_def nth_append list_update_append)

lemma need_le_trans: "need_le p q \<Longrightarrow> need_le q r \<Longrightarrow> need_le p r"
  by (simp add: need_le_def)

lemma need_le_total: "\<not> need_le p q \<Longrightarrow> need_le q p"
  by (simp add: need_le_def)

lemma insertionSort_inner_sorted:
  "sorted_wrt need_le L \<Longrightarrow> sorted_wrt need_le (x # R) \<Longrightarrow>
   \<forall>a\<in>set L. \<forall>b\<in>set R. need_le a b \<Longrightarrow>
   \<exists>M. insertionSort_inner (L @ x # R @ T) (length L) = Inr (M @ T)
      \<and> sorted_wrt need_le M \<and> mset M = mset (L @ x # R)"
proof (induction L arbitrary: R rule: rev_induct)
  case Nil
  then show ?case
    by (intro exI [of _ "x # R"]) simp
next
  case (snoc y L)
  have len: "length (L @ [y]) = Suc (length L)"
    by simp
  have shape: "(L @ [y]) @ x # R @ T = L @ y # x # R @ T"
    by simp
  show ?case
  proof (cases "need_le x y")
    case True
    have "sorted_wrt need_le L"
      using snoc.prems(1) by (simp add: sorted_wrt_append)
    moreover have "sorted_wrt need_le (x # y # R)"
      using snoc.prems True by (auto simp: sorted_wrt_append)
    moreover have "\<forall>a\<in>set L. \<forall>b\<in>set (y # R). need_le a b"
      using snoc.prems by (auto simp: sorted_wrt_append)
    ultimately obtain M where M:
      "insertionSort_inner (L @ x # (y # R) @ T) (length L) = Inr (M @ T)"
      "sorted_wrt need_le M" "mset M = mset (L @ x # y # R)"
      using snoc.IH [of "y # R"] by blast
    have "insertionSort_inner ((L @ [y]) @ x # R @ T) (length (L @ [y])) = Inr (M @ T)"
      unfolding len shape using True M(1)
      by (simp add: Less_adjacent Swap_adjacent)
    with M show ?thesis
      by (intro exI [of _ M]) simp
  next
    case False
    then have yx: "need_le y x"
      by (rule need_le_total)
    have run: "insertionSort_inner ((L @ [y]) @ x # R @ T) (length (L @ [y]))
        = Inr (((L @ [y]) @ x # R) @ T)"
      unfolding len shape using False by (simp add: Less_adjacent)
    have "\<forall>a\<in>set (L @ [y]). need_le a x"
      using snoc.prems(1) yx by (auto simp: sorted_wrt_append intro: need_le_trans)
    then have "sorted_wrt need_le ((L @ [y]) @ x # R)"
      using snoc.prems by (subst sorted_wrt_append) auto
    with run show ?thesis
      by (intro exI [of _ "(L @ [y]) @ x # R"]) simp
  qed
qed

lemma insertionSort_outer_sorted:
  "i \<le> length sp \<Longrightarrow> sorted_wrt need_le (take i sp) \<Longrightarrow>
   \<exists>out. insertionSort_outer [i..<length sp] sp = Inr out
      \<and> sorted_wrt need_le out \<and> mset out = mset sp"
proof (induction "length sp - i" arbitrary: sp i)
  case 0
  then show ?case by simp
next
  case (Suc k)
  then have i: "i < length sp"
    by simp
  have split: "sp = take i sp @ sp ! i # [] @ drop (Suc i) sp"
    using i by (simp add: id_take_nth_drop [symmetric])
  obtain M where M:
    "insertionSort_inner (take i sp @ sp ! i # [] @ drop (Suc i) sp) (length (take i sp))
       = Inr (M @ drop (Suc i) sp)"
    "sorted_wrt need_le M" "mset M = mset (take i sp @ sp ! i # [])"
    using insertionSort_inner_sorted [of "take i sp" "sp ! i" "[]" "drop (Suc i) sp"] Suc.prems(2)
    by auto
  let ?sp' = "M @ drop (Suc i) sp"
  have lenM: "length M = Suc i"
    using M(3) i by (metis length_append length_take min.absorb2 less_imp_le_nat
        size_mset length_Cons list.size(3) add_Suc_right add_0_right)
  have inner: "insertionSort_inner sp i = Inr ?sp'"
    using M(1) split i by simp
  have len': "length ?sp' = length sp"
    using lenM i by simp
  have "k = length ?sp' - Suc i"
    using Suc.hyps(2) len' by simp
  moreover have "Suc i \<le> length ?sp'"
    using i len' by simp
  moreover have "sorted_wrt need_le (take (Suc i) ?sp')"
    using M(2) lenM by simp
  ultimately obtain out where out:
    "insertionSort_outer [Suc i..<length ?sp'] ?sp' = Inr out"
    "sorted_wrt need_le out" "mset out = mset ?sp'"
    using Suc.hyps(1) [of ?sp' "Suc i"] by blast
  have "mset ?sp' = mset sp"
    using M(3) by (subst (2) split) simp
  moreover have "insertionSort_outer [i..<length sp] sp = Inr out"
    using i inner out(1) len' by (simp add: upt_conv_Cons)
  ultimately show ?case
    using out by auto
qed

lemma insertionSort_sorted:
  "\<exists>out. insertionSort sp = Inr out \<and> sorted_wrt need_le out \<and> mset out = mset sp"
proof (cases sp)
  case Nil
  then show ?thesis
    by (simp add: insertionSort_def Len_def)
next
  case (Cons p ps)
  then have "1 \<le> length sp" "sorted_wrt need_le (take 1 sp)"
    by simp_all
  from insertionSort_outer_sorted [OF this] show ?thesis
    by (simp add: insertionSort_def Len_def)
qed




text \<open>
  C10. Whatever \<^verbatim>\<open>Swap\<close> calls, on indices of the slice, the sorting makes, the ranking
  of a map (given by its entries, each key once) returns: the result holds every value
  of the map as often as the map does, and has one element for each key.
\<close>

theorem sortedPeers_permutation:
  "distinct (map fst entries) \<Longrightarrow>
   \<forall>(i, j)\<in>set calls. i < length entries \<and> j < length entries \<Longrightarrow>
   \<exists>out. sortedPeersByQtyPiecesNeeded (Swaps calls) entries = Inr out
      \<and> mset out = image_mset (\<lambda>k. the (map_of entries k)) (mset_set (dom (map_of entries)))
      \<and> length out = card (dom (map_of entries))"
proof -
  assume d: "distinct (map fst entries)"
    and r: "\<forall>(i, j)\<in>set calls. i < length entries \<and> j < length entries"
  from r have "\<forall>(i, j)\<in>set calls. i < length (map snd entries) \<and> j < length (map snd entries)"
    by simp
  from Swaps_mset [OF this] obtain out where out:
    "Swaps calls (map snd entries) = Inr out" "mset out = mset (map snd entries)"
    "length out = length entries"
    by auto
  have "card (dom (map_of entries)) = length entries"
    using d by (metis distinct_card dom_map_of_conv_image_fst length_map list.set_map)
  with out map_of_values [OF d] show ?thesis
    by (simp add: sortedPeersByQtyPiecesNeeded_def)
qed

theorem sortedPeers_permutation_witness:
  "distinct (map fst four_peers) \<and> length four_peers = 4
   \<and> (\<exists>out. sortedPeersByQtyPiecesNeeded (Swaps [(1, 0), (2, 1), (1, 0), (3, 2)]) four_peers
               = Inr out
         \<and> mset out = image_mset (\<lambda>k. the (map_of four_peers k))
                        (mset_set (dom (map_of four_peers)))
         \<and> length out = card (dom (map_of four_peers)))"
proof -
  have d: "distinct (map fst four_peers)"
    by (simp add: four_peers_def)
  have r: "\<forall>(i, j)\<in>set [(1, 0), (2, 1), (1, 0), (3, 2)].
      i < length four_peers \<and> j < length four_peers"
    by (simp add: four_peers_def)
  have "length four_peers = 4"
    by (simp add: four_peers_def)
  with sortedPeers_permutation [OF d r] d show ?thesis
    by blast
qed

text \<open>The insertion sort rearranges as well, for a slice of any length.\<close>

lemma insertionSort_permutation:
  "\<exists>out. sortedPeersByQtyPiecesNeeded insertionSort entries = Inr out
      \<and> mset out = mset (map snd entries)"
  using insertionSort_sorted [of "map snd entries"]
  by (auto simp: sortedPeersByQtyPiecesNeeded_def)

section \<open>Bytes left after initialisation\<close>

lemma foldl_add_Length:
  "foldl (\<lambda>left file. left + Length file) a fs = a + sum_list (map Length fs)"
  by (induction fs arbitrary: a) (simp_all add: add.assoc)

text \<open>
  On a session whose counters are zero, \<^verbatim>\<open>Init\<close> leaves in \<^verbatim>\<open>Stats.Left\<close> the sum of the
  file lengths when files are listed and the single file's length otherwise; the other
  counters stay zero. The sum is the one Go computes, in 64-bit arithmetic.
\<close>

lemma Init_Left_total:
  "Left (TStats (Init (fresh_torrent mi))) =
     (if Files (MInfo mi) \<noteq> [] then sum_list (map Length (Files (MInfo mi)))
      else InfoLength (MInfo mi))
   \<and> Uploaded (TStats (Init (fresh_torrent mi))) = 0
   \<and> Downloaded (TStats (Init (fresh_torrent mi))) = 0"
  by (simp add: Init_def fresh_torrent_def foldl_add_Length)

text \<open>
  Where a torrent does not give both a length and a file list, this is the total
  length that \<^verbatim>\<open>Run\<close> computes.
\<close>

lemma Init_Left_Run_totalLength:
  "\<not> (InfoLength (MInfo mi) \<noteq> 0 \<and> Files (MInfo mi) \<noteq> []) \<Longrightarrow>
   Left (TStats (Init (fresh_torrent mi))) = Run_totalLength mi"
  by (auto simp: Init_def fresh_torrent_def Run_totalLength_def)

text \<open>
  C9, as stated, fails. For a torrent that gives a single-file length of 5 and also lists
  files of 10 and 22 bytes, \<^verbatim>\<open>Init\<close> counts the files and leaves 32, while the total
  length that \<^verbatim>\<open>Run\<close> computes and hands on is 5; when the one piece of that torrent has
  been verified, 16 bytes are still counted as left.
\<close>

theorem Init_Left_both_counterexample:
  "Left (TStats (Init (fresh_torrent both_meta))) = 32 \<and> Run_totalLength both_meta = 5
   \<and> length (pieceHashes both_meta) = 1
   \<and> Left ((OnPieceVerified both_meta ^^ length (pieceHashes both_meta))
              (TStats (Init (fresh_torrent both_meta)))) = 16"
  by (simp add: Init_def fresh_torrent_def both_meta_def Run_totalLength_def pieceHashes_def
      OnPieceVerified_def)

lemma sint_diff_in_range:
  "0 \<le> sint (l :: go_int) \<Longrightarrow> 0 < sint (p :: go_int) \<Longrightarrow> sint (l - p) = sint l - sint p"
proof -
  assume l: "0 \<le> sint l" and p: "0 < sint p"
  have "sint l < 2 ^ 63" "sint p < 2 ^ 63"
    using sint_lt [of l] sint_lt [of p] by simp_all
  then have "- (2 ^ 63) \<le> sint l - sint p" "sint l - sint p < 2 ^ 63"
    using l p by simp_all
  then have "signed_take_bit 63 (sint l - sint p) = sint l - sint p"
    by (rule signed_take_bit_int_eq_self)
  then show ?thesis
    by (simp add: sint_word_diff)
qed

lemma OnPieceVerified_Left:
  "0 \<le> sint (Left st) \<Longrightarrow> 0 < sint (PieceLength (MInfo mi)) \<Longrightarrow>
   sint (Left (OnPieceVerified mi st)) = max 0 (sint (Left st) - sint (PieceLength (MInfo mi)))"
  by (simp add: OnPieceVerified_def sint_diff_in_range)

lemma verified_Left:
  "0 \<le> sint (Left st) \<Longrightarrow> 0 < sint (PieceLength (MInfo mi)) \<Longrightarrow>
   sint (Left ((OnPieceVerified mi ^^ k) st))
     = max 0 (sint (Left st) - int k * sint (PieceLength (MInfo mi)))"
proof (induction k)
  case 0
  then show ?case by simp
next
  case (Suc k)
  then have "0 \<le> sint (Left ((OnPieceVerified mi ^^ k) st))"
    by simp
  from OnPieceVerified_Left [OF this Suc.prems(2)] Suc show ?case
    by (simp add: algebra_simps max_def)
qed

lemma ceil_bounds:
  "0 < (P::int) \<Longrightarrow> 0 \<le> T \<Longrightarrow> n = (T + P - 1) div P \<Longrightarrow>
   T \<le> n * P \<and> (k < n \<longrightarrow> k * P < T)"
proof -
  assume P: "0 < P" and T: "0 \<le> T" and n: "n = (T + P - 1) div P"
  have eq: "n * P + (T + P - 1) mod P = T + P - 1"
    unfolding n by simp
  have r: "0 \<le> (T + P - 1) mod P" "(T + P - 1) mod P < P"
    using P by simp_all
  have upper: "T \<le> n * P"
    using eq r by linarith
  have "k * P < T" if "k < n"
  proof -
    from that have "k + 1 \<le> n"
      by simp
    then have "(k + 1) * P \<le> n * P"
      using P by (simp add: mult_right_mono)
    then have "k * P + P \<le> n * P"
      by (simp add: algebra_simps)
    with eq r show ?thesis
      by linarith
  qed
  with upper show ?thesis
    by blast
qed

text \<open>
  C9, amended. For a torrent that does not give both a length and a file list, \<^verbatim>\<open>Init\<close>
  on zero counters leaves in \<^verbatim>\<open>Stats.Left\<close> the total length that \<^verbatim>\<open>Run\<close> computes: the
  sum of the file lengths when files are listed, the single file's length otherwise.
  With a positive piece length, a total that is not negative, and as many recorded
  piece hashes as pieces are needed for the total, subtracting the piece length once
  for every verified piece, clamped at zero, reaches 0 with the last piece and not
  before.
\<close>

theorem Init_Left_drains:
  "\<not> (InfoLength (MInfo mi) \<noteq> 0 \<and> Files (MInfo mi) \<noteq> []) \<Longrightarrow>
   0 < sint (PieceLength (MInfo mi)) \<Longrightarrow> 0 \<le> sint (Run_totalLength mi) \<Longrightarrow>
   int (length (pieceHashes mi))
     = (sint (Run_totalLength mi) + sint (PieceLength (MInfo mi)) - 1)
         div sint (PieceLength (MInfo mi)) \<Longrightarrow>
   Left (TStats (Init (fresh_torrent mi))) = Run_totalLength mi
   \<and> Left (TStats (Init (fresh_torrent mi))) =
       (if Files (MInfo mi) \<noteq> [] then sum_list (map Length (Files (MInfo mi)))
        else InfoLength (MInfo mi))
   \<and> Left ((OnPieceVerified mi ^^ length (pieceHashes mi)) (TStats (Init (fresh_torrent mi)))) = 0
   \<and> (k < length (pieceHashes mi) \<longrightarrow>
        Left ((OnPieceVerified mi ^^ k) (TStats (Init (fresh_torrent mi)))) \<noteq> 0)"
proof -
  let ?st = "TStats (Init (fresh_torrent mi))"
  let ?P = "sint (PieceLength (MInfo mi))"
  let ?T = "sint (Run_totalLength mi)"
  let ?n = "length (pieceHashes mi)"
  assume nb: "\<not> (InfoLength (MInfo mi) \<noteq> 0 \<and> Files (MInfo mi) \<noteq> [])"
    and P: "0 < ?P" and T: "0 \<le> ?T" and n: "int ?n = (?T + ?P - 1) div ?P"
  have L: "Left ?st = Run_totalLength mi"
    using nb by (rule Init_Left_Run_totalLength)
  then have L0: "0 \<le> sint (Left ?st)"
    using T by simp
  have run: "sint (Left ((OnPieceVerified mi ^^ j) ?st)) = max 0 (?T - int j * ?P)" for j
    using verified_Left [OF L0 P, of j] L by simp
  from ceil_bounds [OF P T n, of "int k"]
  have b: "?T \<le> int ?n * ?P" "k < ?n \<longrightarrow> int k * ?P < ?T"
    by simp_all
  have "sint (Left ((OnPieceVerified mi ^^ ?n) ?st)) = 0"
    using run [of ?n] b(1) by simp
  then have zero: "Left ((OnPieceVerified mi ^^ ?n) ?st) = 0"
    by (simp add: signed_eq_0_iff)
  have "k < ?n \<longrightarrow> sint (Left ((OnPieceVerified mi ^^ k) ?st)) \<noteq> 0"
    using run [of k] b(2) by auto
  then have before: "k < ?n \<longrightarrow> Left ((OnPieceVerified mi ^^ k) ?st) \<noteq> 0"
    by (auto simp: signed_eq_0_iff)
  from L zero before Init_Left_total [of mi] show ?thesis
    by simp
qed

theorem Init_Left_drains_witness:
  "0 < sint (PieceLength (MInfo two_file_meta)) \<and> 0 \<le> sint (Run_totalLength two_file_meta)
   \<and> length (pieceHashes two_file_meta) = 2
   \<and> Left (TStats (Init (fresh_torrent two_file_meta))) = 32
   \<and> Run_totalLength two_file_meta = 32
   \<and> Left ((OnPieceVerified two_file_meta ^^ 2) (TStats (Init (fresh_torrent two_file_meta)))) = 0
   \<and> Left ((OnPieceVerified two_file_meta ^^ 1) (TStats (Init (fresh_torrent two_file_meta)))) \<noteq> 0"
proof -
  have t: "Run_totalLength two_file_meta = 32"
    by (simp add: Run_totalLength_def two_file_meta_def)
  have n: "length (pieceHashes two_file_meta) = 2"
    by (simp add: pieceHashes_def two_file_meta_def)
  have h: "\<not> (InfoLength (MInfo two_file_meta) \<noteq> 0 \<and> Files (MInfo two_file_meta) \<noteq> [])"
    "0 < sint (PieceLength (MInfo two_file_meta))" "0 \<le> sint (Run_totalLength two_file_meta)"
    "int (length (pieceHashes two_file_meta))
      = (sint (Run_totalLength two_file_meta) + sint (PieceLength (MInfo two_file_meta)) - 1)
          div sint (PieceLength (MInfo two_file_meta))"
    unfolding t n by (simp_all add: two_file_meta_def)
  from Init_Left_drains [OF h, of 1] h(2,3) t n show ?thesis
    by simp
qed

section \<open>A new peer's state\<close>

text \<open>
  C7. \<^verbatim>\<open>NewPeerInfo(4)\<close> returns a bitfield of four \<open>False\<close> entries, and a choke flag
  that is \<open>False\<close>: the flag keeps the zero value of \<^verbatim>\<open>new(PeerInfo)\<close>, although the
  field's comment says that it defaults to true.
\<close>

theorem NewPeerInfo_not_choked:
  "NewPeerInfo 4 =
     Inr \<lparr>peerId = [], isChoked = False, availablePieces = [False, False, False, False],
          activeRequests = {}, qtyPiecesNeeded = 0\<rparr>"
  by (simp add: NewPeerInfo_def numeral_eq_Suc)

lemma NewPeerInfo_bitfield:
  "0 \<le> sint n \<Longrightarrow>
   \<exists>pi. NewPeerInfo n = Inr pi \<and> \<not> isChoked pi
      \<and> availablePieces pi = replicate (nat (sint n)) False"
  by (simp add: NewPeerInfo_def)

section \<open>Registering a peer\<close>

text \<open>
  The peer id tells the tuples apart by the string of the address and the port: the
  decimal digits of the port hold no colon, so the id splits at its last colon.
\<close>

lemma decimal_not_Nil: "decimal n \<noteq> []"
  by (subst decimal.simps) simp

lemma digit_not_colon: "k < 10 \<Longrightarrow> char_of (48 + k :: nat) \<noteq> CHR '':''"
  by (simp add: char_of_eq_iff take_bit_eq_mod)

lemma decimal_no_colon: "CHR '':'' \<notin> set (decimal n)"
proof (induction n rule: decimal.induct)
  case (1 n)
  show ?case
  proof (cases "n < 10")
    case True
    with digit_not_colon [of n] show ?thesis
      by (subst decimal.simps) auto
  next
    case False
    with "1.IH" digit_not_colon [of "n mod 10"] show ?thesis
      by (subst decimal.simps) auto
  qed
qed

lemma digit_inj: "a < 10 \<Longrightarrow> b < 10 \<Longrightarrow> char_of (48 + a :: nat) = char_of (48 + b :: nat) \<Longrightarrow> a = b"
  by simp

lemma decimal_inj: "decimal n = decimal m \<Longrightarrow> n = m"
proof (induction n arbitrary: m rule: decimal.induct)
  case (1 n)
  show ?case
  proof (cases "n < 10")
    case n: True
    show ?thesis
    proof (cases "m < 10")
      case True
      with n "1.prems" show ?thesis
        by (simp add: decimal.simps [of n] decimal.simps [of m])
    next
      case False
      with n "1.prems" decimal_not_Nil [of "m div 10"] show ?thesis
        by (simp add: decimal.simps [of n] decimal.simps [of m])
    qed
  next
    case n: False
    show ?thesis
    proof (cases "m < 10")
      case True
      with n "1.prems" decimal_not_Nil [of "n div 10"] show ?thesis
        by (simp add: decimal.simps [of n] decimal.simps [of m])
    next
      case False
      with n "1.prems" have eq: "decimal (n div 10) = decimal (m div 10)"
        "char_of (48 + n mod 10) = (char_of (48 + m mod 10) :: char)"
        by (simp_all add: decimal.simps [of n] decimal.simps [of m])
      from "1.IH" [OF n eq(1)] have "n div 10 = m div 10" .
      moreover from eq(2) have "n mod 10 = m mod 10"
        by (intro digit_inj) simp_all
      ultimately show ?thesis
        by (metis div_mult_mod_eq)
    qed
  qed
qed

lemma split_last_colon:
  "c \<notin> set ds \<Longrightarrow> c \<notin> set es \<Longrightarrow>
   xs @ c # ds = ys @ c # es \<Longrightarrow> xs = ys \<and> ds = es"
proof (induction xs arbitrary: ys)
  case Nil
  then show ?case
    by (cases ys) auto
next
  case (Cons x xs)
  then show ?case
    by (cases ys) auto
qed

lemma peerID_eq_iff:
  "peerID ip_string p = peerID ip_string p' \<longleftrightarrow>
     ip_string (IP p) = ip_string (IP p') \<and> Port p = Port p'"
proof
  assume "peerID ip_string p = peerID ip_string p'"
  then have "ip_string (IP p) = ip_string (IP p')
      \<and> decimal (unat (Port p)) = decimal (unat (Port p'))"
    unfolding peerID_def
    using split_last_colon [OF decimal_no_colon decimal_no_colon] by simp
  then show "ip_string (IP p) = ip_string (IP p') \<and> Port p = Port p'"
    by (auto dest!: decimal_inj simp: word_unat_eq_iff)
next
  assume "ip_string (IP p) = ip_string (IP p') \<and> Port p = Port p'"
  then show "peerID ip_string p = peerID ip_string p'"
    by (simp add: peerID_def)
qed

text \<open>
  C8. When the peer id of a tuple is in the map, with whatever entry, receiving the tuple
  leaves the peer manager as it is: the entry is kept, not replaced. So receiving a
  tuple a second time changes nothing; after both deliveries the map has the keys it
  had before and the tuple's peer id, once, and the entries at all other keys are
  untouched. Two tuples have the same peer id exactly when their address strings and
  their ports are the same.
\<close>

theorem Run_peersCh_idempotent:
  "Run_peersCh ip_string (pm\<lparr>peers := (peers pm)(peerID ip_string p \<mapsto> q)\<rparr>) p
     = pm\<lparr>peers := (peers pm)(peerID ip_string p \<mapsto> q)\<rparr>
   \<and> Run_peersCh ip_string (Run_peersCh ip_string pm p) p = Run_peersCh ip_string pm p
   \<and> dom (peers (Run_peersCh ip_string (Run_peersCh ip_string pm p) p))
       = insert (peerID ip_string p) (dom (peers pm))
   \<and> peers (Run_peersCh ip_string pm p) |` (- {peerID ip_string p})
       = peers pm |` (- {peerID ip_string p})
   \<and> (peerID ip_string p = peerID ip_string p' \<longleftrightarrow>
        ip_string (IP p) = ip_string (IP p') \<and> Port p = Port p')"
proof -
  have "peers (Run_peersCh ip_string pm p) |` (- {peerID ip_string p})
      = peers pm |` (- {peerID ip_string p})"
    by (auto simp: Run_peersCh_def restrict_map_def split: option.splits)
  moreover have "Run_peersCh ip_string (Run_peersCh ip_string pm p) p = Run_peersCh ip_string pm p"
    "dom (peers (Run_peersCh ip_string (Run_peersCh ip_string pm p) p))
       = insert (peerID ip_string p) (dom (peers pm))"
    by (auto simp: Run_peersCh_def split: option.splits)
  ultimately show ?thesis
    using peerID_eq_iff [of ip_string p p'] by (simp add: Run_peersCh_def)
qed

lemma Run_peersCh_existing:
  "peers pm (peerID ip_string p) = Some q \<Longrightarrow> Run_peersCh ip_string pm p = pm"
  by (simp add: Run_peersCh_def)

end
